theory Spec2Isabelle
  imports Complex_Main
begin

section \<open>Error codes and checked vector access\<close>

text \<open>
  The functions of \<^verbatim>\<open>matching.c\<close> return an \<^verbatim>\<open>igraph_error_t\<close> and deliver their
  results through output pointers.  In the embedding a call returns either an error
  (\<open>Inl\<close>) or the values written to the outputs (\<open>Inr\<close>).  \<open>OUT_OF_BOUNDS\<close> is not
  an igraph error code: it marks a read or write outside a vector, which in C has no
  defined result.  \<open>UNINITIALIZED\<close> marks, in the same way, the use of a vector that
  no \<^verbatim>\<open>init\<close> has set up.  \<open>NOT_FINITE\<close> is no igraph error code either; it is
  explained with the weighted matcher, its only user.
\<close>

datatype igraph_error =
  IGRAPH_EINVAL | IGRAPH_EINVVID | IGRAPH_UNIMPLEMENTED | OUT_OF_BOUNDS | UNINITIALIZED
  | NOT_FINITE

text \<open>\<^verbatim>\<open>VECTOR(v)[i]\<close> as a read and as a write, \<^verbatim>\<open>igraph_integer_t\<close> as \<open>int\<close>.\<close>

definition VECTOR :: "'a list \<Rightarrow> int \<Rightarrow> igraph_error + 'a" where
  "VECTOR v i = (if 0 \<le> i \<and> i < int (length v) then Inr (v ! nat i) else Inl OUT_OF_BOUNDS)"

definition VECTOR_set :: "'a list \<Rightarrow> int \<Rightarrow> 'a \<Rightarrow> igraph_error + 'a list" where
  "VECTOR_set v i x = (if 0 \<le> i \<and> i < int (length v) then Inr (v[nat i := x]) else Inl OUT_OF_BOUNDS)"

section \<open>The graph collaborator\<close>

text \<open>
  Modelled from the spec: the type \<^verbatim>\<open>igraph_t\<close> and the graph interface
  (\<^verbatim>\<open>igraph_vcount\<close>, \<^verbatim>\<open>igraph_ecount\<close>, \<^verbatim>\<open>igraph_neighbors\<close>,
  \<^verbatim>\<open>igraph_are_connected\<close>, \<^verbatim>\<open>igraph_inclist_init\<close>, \<^verbatim>\<open>IGRAPH_OTHER\<close>,
  \<^verbatim>\<open>igraph_edge\<close>, \<^verbatim>\<open>igraph_get_edgelist\<close>, \<^verbatim>\<open>igraph_create\<close>) are declared in
  headers that are not part of the sources at hand.  Vertex ids are the contiguous range
  \<open>[0, n)\<close>; an edge is a pair of endpoints and its id is its position in the edge list;
  self-loops and parallel edges are legal.
\<close>

record igraph_t =
  vcount :: nat
  directed :: bool
  edgelist :: "(nat \<times> nat) list"

definition igraph_ok :: "igraph_t \<Rightarrow> bool" where
  "igraph_ok g = list_all (\<lambda>e. fst e < vcount g \<and> snd e < vcount g) (edgelist g)"

definition igraph_vcount :: "igraph_t \<Rightarrow> int" where
  "igraph_vcount g = int (vcount g)"

definition igraph_ecount :: "igraph_t \<Rightarrow> int" where
  "igraph_ecount g = int (length (edgelist g))"

text \<open>
  Modelled from the spec: \<open>neighbors(v, mode=ALL)\<close> is the direction-agnostic
  enumeration of the vertices at the other end of the edges at \<open>v\<close>; a self-loop lists
  \<open>v\<close> twice, a parallel edge lists its other endpoint once per edge.  The enumeration
  is in ascending order of vertex id.
\<close>

definition other_ends :: "igraph_t \<Rightarrow> nat \<Rightarrow> nat list" where
  "other_ends g v =
     concat (map (\<lambda>e. (if fst e = v then [snd e] else []) @ (if snd e = v then [fst e] else []))
                 (edgelist g))"

definition igraph_neighbors :: "igraph_t \<Rightarrow> int \<Rightarrow> igraph_error + int list" where
  "igraph_neighbors g v =
     (if v < 0 \<or> igraph_vcount g \<le> v then Inl IGRAPH_EINVVID
      else Inr (map int (sort (other_ends g (nat v)))))"

text \<open>
  Modelled from the spec: \<open>are_connected(u, v)\<close> looks an edge up by its endpoint pair,
  following the direction of a directed graph; invalid vertex ids are an error.
\<close>

definition igraph_are_connected :: "igraph_t \<Rightarrow> int \<Rightarrow> int \<Rightarrow> igraph_error + bool" where
  "igraph_are_connected g v1 v2 =
     (if v1 < 0 \<or> v2 < 0 \<or> v1 > igraph_vcount g - 1 \<or> v2 > igraph_vcount g - 1
      then Inl IGRAPH_EINVVID
      else Inr ((nat v1, nat v2) \<in> set (edgelist g) \<or>
                (\<not> directed g \<and> (nat v2, nat v1) \<in> set (edgelist g))))"

section \<open>Loops\<close>

text \<open>A \<^verbatim>\<open>for\<close> loop over the elements of a vector, leaving at the first error.\<close>

fun for_each :: "('a \<Rightarrow> 's \<Rightarrow> igraph_error + 's) \<Rightarrow> 'a list \<Rightarrow> 's \<Rightarrow> igraph_error + 's" where
  "for_each body [] s = Inr s"
| "for_each body (x # xs) s =
     (case body x s of Inl e \<Rightarrow> Inl e | Inr s' \<Rightarrow> for_each body xs s')"

section \<open>The matching validator\<close>

text \<open>
  \<^verbatim>\<open>igraph_is_matching\<close>, lines 89 to 143.  The first loop checks, for each vertex
  \<open>i\<close> in turn, the range of \<open>matching[i]\<close>, that the pairing is mutual and that the pair
  is connected in one of the two directions.  \<open>Inr False\<close> of a loop is the early
  \<^verbatim>\<open>*result = false; return IGRAPH_SUCCESS\<close>, \<open>Inr True\<close> is the loop running to its end.
\<close>

fun is_matching_pairs :: "igraph_t \<Rightarrow> int list \<Rightarrow> nat list \<Rightarrow> igraph_error + bool" where
  "is_matching_pairs g matching [] = Inr True"
| "is_matching_pairs g matching (i # rest) =
     (case VECTOR matching (int i) of Inl e \<Rightarrow> Inl e | Inr j \<Rightarrow>
        if j < - 1 \<or> j \<ge> igraph_vcount g then Inr False
        else if j = - 1 then is_matching_pairs g matching rest
        else (case VECTOR matching j of Inl e \<Rightarrow> Inl e | Inr mj \<Rightarrow>
          if mj \<noteq> int i then Inr False
          else (case igraph_are_connected g (int i) j of Inl e \<Rightarrow> Inl e | Inr conn \<Rightarrow>
            if \<not> conn then
              (case igraph_are_connected g j (int i) of Inl e \<Rightarrow> Inl e | Inr conn \<Rightarrow>
                 if \<not> conn then Inr False else is_matching_pairs g matching rest)
            else is_matching_pairs g matching rest)))"

fun is_matching_types :: "bool list \<Rightarrow> int list \<Rightarrow> nat list \<Rightarrow> igraph_error + bool" where
  "is_matching_types types matching [] = Inr True"
| "is_matching_types types matching (i # rest) =
     (case VECTOR matching (int i) of Inl e \<Rightarrow> Inl e | Inr j \<Rightarrow>
        if j = - 1 then is_matching_types types matching rest
        else (case VECTOR types (int i) of Inl e \<Rightarrow> Inl e | Inr ti \<Rightarrow>
          (case VECTOR types j of Inl e \<Rightarrow> Inl e | Inr tj \<Rightarrow>
             if ti = tj then Inr False else is_matching_types types matching rest)))"

definition igraph_is_matching ::
  "igraph_t \<Rightarrow> bool list option \<Rightarrow> int list \<Rightarrow> igraph_error + bool" where
  "igraph_is_matching g types matching =
     (if int (length matching) \<noteq> igraph_vcount g then Inr False
      else (case is_matching_pairs g matching [0..<vcount g] of
              Inl e \<Rightarrow> Inl e
            | Inr False \<Rightarrow> Inr False
            | Inr True \<Rightarrow>
                (case types of
                   None \<Rightarrow> Inr True
                 | Some t \<Rightarrow> is_matching_types t matching [0..<vcount g])))"

text \<open>
  \<^verbatim>\<open>igraph_is_maximal_matching\<close>, lines 171 to 211.  The inner loop over the neighbours
  of an unmatched vertex clears \<open>valid\<close> and breaks; the outer loop goes on, and \<open>valid\<close>
  is never set again.
\<close>

fun is_maximal_neis ::
  "bool list option \<Rightarrow> int list \<Rightarrow> int \<Rightarrow> int list \<Rightarrow> bool \<Rightarrow> igraph_error + bool" where
  "is_maximal_neis types matching i [] valid = Inr valid"
| "is_maximal_neis types matching i (k # rest) valid =
     (case VECTOR matching k of Inl e \<Rightarrow> Inl e | Inr mk \<Rightarrow>
        if mk = - 1 then
          (case types of
             None \<Rightarrow> Inr False
           | Some t \<Rightarrow>
               (case VECTOR t i of Inl e \<Rightarrow> Inl e | Inr ti \<Rightarrow>
                 (case VECTOR t k of Inl e \<Rightarrow> Inl e | Inr tk \<Rightarrow>
                    if ti \<noteq> tk then Inr False
                    else is_maximal_neis types matching i rest valid)))
        else is_maximal_neis types matching i rest valid)"

fun is_maximal_vertices ::
  "igraph_t \<Rightarrow> bool list option \<Rightarrow> int list \<Rightarrow> nat list \<Rightarrow> bool \<Rightarrow> igraph_error + bool" where
  "is_maximal_vertices g types matching [] valid = Inr valid"
| "is_maximal_vertices g types matching (i # rest) valid =
     (case VECTOR matching (int i) of Inl e \<Rightarrow> Inl e | Inr j \<Rightarrow>
        if j \<noteq> - 1 then is_maximal_vertices g types matching rest valid
        else (case igraph_neighbors g (int i) of Inl e \<Rightarrow> Inl e | Inr neis \<Rightarrow>
          (case is_maximal_neis types matching (int i) neis valid of Inl e \<Rightarrow> Inl e
           | Inr valid' \<Rightarrow> is_maximal_vertices g types matching rest valid')))"

definition igraph_is_maximal_matching ::
  "igraph_t \<Rightarrow> bool list option \<Rightarrow> int list \<Rightarrow> igraph_error + bool" where
  "igraph_is_maximal_matching g types matching =
     (case igraph_is_matching g types matching of
        Inl e \<Rightarrow> Inl e
      | Inr False \<Rightarrow> Inr False
      | Inr True \<Rightarrow> is_maximal_vertices g types matching [0..<vcount g] True)"

section \<open>The unweighted bipartite matcher\<close>

text \<open>
  The values a caller passes by pointer and reads back: \<open>None\<close> is a null pointer,
  \<open>Some x\<close> a pointer to a variable that holds \<open>x\<close>.  A write through a null pointer
  is outside C, as an access outside a vector is, and is marked \<open>OUT_OF_BOUNDS\<close>.
\<close>

record outputs =
  matching_size :: "int option"
  matching_weight :: "real option"
  matching :: "int list option"

text \<open>
  \<^verbatim>\<open>igraph_i_maximum_bipartite_matching_unweighted\<close>, lines 333 to 469.  The macros
  \<^verbatim>\<open>MATCHED(v)\<close> and \<^verbatim>\<open>UNMATCHED(v)\<close> compare \<^verbatim>\<open>VECTOR(match)[v]\<close> with \<open>-1\<close>.
  Allocation failures are not modelled, and \<^verbatim>\<open>igraph_integer_t\<close> is \<open>int\<close>: none of
  the sums below can leave 64 bits for a graph that fits in memory.

  Step (3), the greedy initial matching.  The variable \<open>j\<close> counts the vertices of type
  true and is also the index of the inner loop, which sets it to 0 for every unmatched
  vertex; its value after the loops decides \<^verbatim>\<open>smaller_set\<close>.  The inner loop is
  \<open>greedy_scan\<close>: it returns the error for a neighbour of the same type, stops at the
  first unmatched neighbour (\<^verbatim>\<open>break\<close>), and otherwise ends with \<open>j\<close> the number of
  neighbours.
\<close>

fun greedy_scan ::
  "bool list \<Rightarrow> int \<Rightarrow> int list \<Rightarrow> int \<Rightarrow> int list \<times> int \<Rightarrow> igraph_error + int list \<times> int \<times> int" where
  "greedy_scan types i [] j (match, num_matched) = Inr (match, num_matched, j)"
| "greedy_scan types i (k # rest) j (match, num_matched) =
     (case VECTOR types k of Inl e \<Rightarrow> Inl e | Inr tk \<Rightarrow>
      case VECTOR types i of Inl e \<Rightarrow> Inl e | Inr ti \<Rightarrow>
        if tk = ti then Inl IGRAPH_EINVAL
        else (case VECTOR match k of Inl e \<Rightarrow> Inl e | Inr mk \<Rightarrow>
          if mk = - 1 then
            (case VECTOR_set match k i of Inl e \<Rightarrow> Inl e | Inr match1 \<Rightarrow>
             case VECTOR_set match1 i k of Inl e \<Rightarrow> Inl e | Inr match2 \<Rightarrow>
               Inr (match2, num_matched + 1, j))
          else greedy_scan types i rest (j + 1) (match, num_matched)))"

definition greedy_vertex ::
  "igraph_t \<Rightarrow> bool list \<Rightarrow> nat \<Rightarrow> int list \<times> int \<times> int \<Rightarrow> igraph_error + int list \<times> int \<times> int" where
  "greedy_vertex g types i s =
     (case s of (match, num_matched, j) \<Rightarrow>
      case VECTOR types (int i) of Inl e \<Rightarrow> Inl e | Inr ti \<Rightarrow>
      let j1 = (if ti then j + 1 else j) in
      case VECTOR match (int i) of Inl e \<Rightarrow> Inl e | Inr mi \<Rightarrow>
        if mi \<noteq> - 1 then Inr (match, num_matched, j1)
        else (case igraph_neighbors g (int i) of Inl e \<Rightarrow> Inl e | Inr neis \<Rightarrow>
                greedy_scan types (int i) neis 0 (match, num_matched)))"

text \<open>
  \<^verbatim>\<open>igraph_i_maximum_bipartite_matching_unweighted_relabel\<close>, lines 471 to 525: all
  labels are set to \<open>n\<close>, the unmatched vertices of the larger set get label 0 and start
  a breadth-first search through the current matching.
\<close>

definition relabel_root ::
  "bool list \<Rightarrow> int list \<Rightarrow> bool \<Rightarrow> nat \<Rightarrow> int list \<times> int list \<Rightarrow> igraph_error + int list \<times> int list" where
  "relabel_root types match smaller_set i s =
     (case s of (labels, q) \<Rightarrow>
      case VECTOR types (int i) of Inl e \<Rightarrow> Inl e | Inr ti \<Rightarrow>
        if ti \<noteq> smaller_set then
          (case VECTOR match (int i) of Inl e \<Rightarrow> Inl e | Inr mi \<Rightarrow>
             if mi = - 1 then
               (case VECTOR_set labels (int i) 0 of Inl e \<Rightarrow> Inl e | Inr labels1 \<Rightarrow>
                  Inr (labels1, q @ [int i]))
             else Inr (labels, q))
        else Inr (labels, q))"

definition relabel_visit ::
  "int \<Rightarrow> int list \<Rightarrow> int \<Rightarrow> int \<Rightarrow> int list \<times> int list \<Rightarrow> igraph_error + int list \<times> int list" where
  "relabel_visit no_of_nodes match v w s =
     (case s of (labels, q) \<Rightarrow>
      case VECTOR labels w of Inl e \<Rightarrow> Inl e | Inr lw \<Rightarrow>
        if lw = no_of_nodes then
          (case VECTOR labels v of Inl e \<Rightarrow> Inl e | Inr lv \<Rightarrow>
           case VECTOR_set labels w (lv + 1) of Inl e \<Rightarrow> Inl e | Inr labels1 \<Rightarrow>
           case VECTOR match w of Inl e \<Rightarrow> Inl e | Inr matched_to \<Rightarrow>
             if matched_to \<noteq> - 1 then
               (case VECTOR labels1 matched_to of Inl e \<Rightarrow> Inl e | Inr lm \<Rightarrow>
                  if lm = no_of_nodes then
                    (case VECTOR labels1 w of Inl e \<Rightarrow> Inl e | Inr lw1 \<Rightarrow>
                     case VECTOR_set labels1 matched_to (lw1 + 1) of Inl e \<Rightarrow> Inl e
                     | Inr labels2 \<Rightarrow> Inr (labels2, q @ [matched_to]))
                  else Inr (labels1, q))
             else Inr (labels1, q))
        else Inr (labels, q))"

text \<open>The search loop, lines 499 to 518.  A search that never empties its queue is \<open>None\<close>.\<close>

partial_function (option) relabel_bfs ::
  "igraph_t \<Rightarrow> int list \<Rightarrow> int list \<times> int list \<Rightarrow> (igraph_error + int list) option" where
  "relabel_bfs g match s =
     (case s of (labels, q) \<Rightarrow>
      case q of
        [] \<Rightarrow> Some (Inr labels)
      | v # rest \<Rightarrow>
          (case igraph_neighbors g v of
             Inl e \<Rightarrow> Some (Inl e)
           | Inr neis \<Rightarrow>
               (case for_each (relabel_visit (igraph_vcount g) match v) neis (labels, rest) of
                  Inl e \<Rightarrow> Some (Inl e)
                | Inr s' \<Rightarrow> relabel_bfs g match s')))"

declare relabel_bfs.simps [code]

definition igraph_i_maximum_bipartite_matching_unweighted_relabel ::
  "igraph_t \<Rightarrow> bool list \<Rightarrow> int list \<Rightarrow> int list \<Rightarrow> bool \<Rightarrow> (igraph_error + int list) option" where
  "igraph_i_maximum_bipartite_matching_unweighted_relabel g types labels match smaller_set =
     (case for_each (relabel_root types match smaller_set) [0..<vcount g]
             (map (\<lambda>_. igraph_vcount g) labels, []) of
        Inl e \<Rightarrow> Some (Inl e)
      | Inr s \<Rightarrow> relabel_bfs g match s)"

text \<open>Line 5 of the report: the neighbour \<open>u\<close> of \<open>v\<close> with the smallest label.\<close>

definition min_label ::
  "int list \<Rightarrow> int \<Rightarrow> int \<times> int \<times> int \<Rightarrow> igraph_error + int \<times> int \<times> int" where
  "min_label labels x s =
     (case s of (u, label_u, label_changed) \<Rightarrow>
      case VECTOR labels x of Inl e \<Rightarrow> Inl e | Inr lx \<Rightarrow>
        if lx < label_u then
          (case VECTOR labels x of Inl e \<Rightarrow> Inl e | Inr lu \<Rightarrow> Inr (x, lu, label_changed + 1))
        else Inr (u, label_u, label_changed))"

text \<open>Step (5): the unmatched vertices of the smaller set enter the queue.\<close>

definition activate ::
  "bool list \<Rightarrow> int list \<Rightarrow> bool \<Rightarrow> nat \<Rightarrow> int list \<Rightarrow> igraph_error + int list" where
  "activate types match smaller_set i q =
     (case VECTOR match (int i) of Inl e \<Rightarrow> Inl e | Inr mi \<Rightarrow>
        if mi = - 1 then
          (case VECTOR types (int i) of Inl e \<Rightarrow> Inl e | Inr ti \<Rightarrow>
             if ti = smaller_set then Inr (q @ [int i]) else Inr q)
        else Inr q)"

text \<open>
  The state of the main loop (6), lines 405 to 451.  \<open>queue\<close> is the FIFO \<^verbatim>\<open>q\<close>.
\<close>

record push_relabel =
  match :: "int list"
  labels :: "int list"
  queue :: "int list"
  num_matched :: int
  label_changed :: int

text \<open>Lines 434 to 450: the push of \<open>v\<close> to \<open>u\<close>, a double push when \<open>u\<close> was matched.\<close>

definition push ::
  "int \<Rightarrow> int \<Rightarrow> int \<Rightarrow> int \<Rightarrow> push_relabel \<Rightarrow> igraph_error + push_relabel" where
  "push no_of_nodes v u label_u s =
     (if label_u < no_of_nodes then
        (case VECTOR (labels s) u of Inl e \<Rightarrow> Inl e | Inr lu \<Rightarrow>
         case VECTOR_set (labels s) v (lu + 1) of Inl e \<Rightarrow> Inl e | Inr labels1 \<Rightarrow>
         case VECTOR (match s) u of Inl e \<Rightarrow> Inl e | Inr w \<Rightarrow>
         case (if w \<noteq> - 1 \<and> w \<noteq> v then
                 (case VECTOR_set (match s) u (- 1) of Inl e \<Rightarrow> Inl e | Inr match1 \<Rightarrow>
                  case VECTOR_set match1 w (- 1) of Inl e \<Rightarrow> Inl e | Inr match2 \<Rightarrow>
                    Inr (s\<lparr>match := match2, queue := queue s @ [w],
                           num_matched := num_matched s - 1\<rparr>))
               else Inr s) of Inl e \<Rightarrow> Inl e | Inr s1 \<Rightarrow>
         case VECTOR_set (match s1) u v of Inl e \<Rightarrow> Inl e | Inr match3 \<Rightarrow>
         case VECTOR_set match3 v u of Inl e \<Rightarrow> Inl e | Inr match4 \<Rightarrow>
         case VECTOR labels1 u of Inl e \<Rightarrow> Inl e | Inr lu1 \<Rightarrow>
         case VECTOR_set labels1 u (lu1 + 2) of Inl e \<Rightarrow> Inl e | Inr labels2 \<Rightarrow>
           Inr (s1\<lparr>match := match4, labels := labels2,
                   num_matched := num_matched s1 + 1,
                   label_changed := label_changed s1 + 1\<rparr>))
      else Inr s)"

text \<open>
  One round of the main loop for the popped vertex \<open>v\<close>: the global relabelling when
  due, the scan of the neighbours, the push.
\<close>

definition discharge ::
  "igraph_t \<Rightarrow> bool list \<Rightarrow> bool \<Rightarrow> int \<Rightarrow> push_relabel \<Rightarrow> (igraph_error + push_relabel) option" where
  "discharge g types smaller_set v s =
     (let no_of_nodes = igraph_vcount g;
          relabeling_freq = no_of_nodes div 2 in
      case (if label_changed s \<ge> relabeling_freq then
              (case igraph_i_maximum_bipartite_matching_unweighted_relabel
                      g types (labels s) (match s) smaller_set of
                 None \<Rightarrow> None
               | Some (Inl e) \<Rightarrow> Some (Inl e)
               | Some (Inr labels1) \<Rightarrow> Some (Inr (s\<lparr>labels := labels1, label_changed := 0\<rparr>)))
            else Some (Inr s)) of
        None \<Rightarrow> None
      | Some (Inl e) \<Rightarrow> Some (Inl e)
      | Some (Inr s1) \<Rightarrow>
          (case igraph_neighbors g v of Inl e \<Rightarrow> Some (Inl e) | Inr neis \<Rightarrow>
           case for_each (min_label (labels s1)) neis (- 1, 2 * no_of_nodes, label_changed s1) of
             Inl e \<Rightarrow> Some (Inl e)
           | Inr (u, label_u, lc) \<Rightarrow>
               Some (push no_of_nodes v u label_u (s1\<lparr>label_changed := lc\<rparr>))))"

partial_function (option) main_loop ::
  "igraph_t \<Rightarrow> bool list \<Rightarrow> bool \<Rightarrow> push_relabel \<Rightarrow> (igraph_error + push_relabel) option" where
  "main_loop g types smaller_set s =
     (case queue s of
        [] \<Rightarrow> Some (Inr s)
      | v # rest \<Rightarrow>
          (case discharge g types smaller_set v (s\<lparr>queue := rest\<rparr>) of
             None \<Rightarrow> None
           | Some (Inl e) \<Rightarrow> Some (Inl e)
           | Some (Inr s') \<Rightarrow> main_loop g types smaller_set s'))"

declare main_loop.simps [code]

definition igraph_i_maximum_bipartite_matching_unweighted ::
  "igraph_t \<Rightarrow> bool list \<Rightarrow> outputs \<Rightarrow> (igraph_error + outputs) option" where
  "igraph_i_maximum_bipartite_matching_unweighted g types out =
     (let no_of_nodes = igraph_vcount g in
      case for_each (greedy_vertex g types) [0..<vcount g]
             (replicate (vcount g) (- 1), 0, 0) of
        Inl e \<Rightarrow> Some (Inl e)
      | Inr (match0, num0, j) \<Rightarrow>
          (let smaller_set = (j \<le> no_of_nodes div 2) in
           case igraph_i_maximum_bipartite_matching_unweighted_relabel
                  g types (replicate (vcount g) 0) match0 smaller_set of
             None \<Rightarrow> None
           | Some (Inl e) \<Rightarrow> Some (Inl e)
           | Some (Inr labels0) \<Rightarrow>
               (case for_each (activate types match0 smaller_set) [0..<vcount g] [] of
                  Inl e \<Rightarrow> Some (Inl e)
                | Inr q0 \<Rightarrow>
                    (case main_loop g types smaller_set
                            \<lparr>match = match0, labels = labels0, queue = q0,
                             num_matched = num0, label_changed = 0\<rparr> of
                       None \<Rightarrow> None
                     | Some (Inl e) \<Rightarrow> Some (Inl e)
                     | Some (Inr s) \<Rightarrow>
                         Some (Inr (out\<lparr>
                           matching := (case matching out of None \<Rightarrow> None
                                        | Some _ \<Rightarrow> Some (match s)),
                           matching_size := (case matching_size out of None \<Rightarrow> None
                                             | Some _ \<Rightarrow> Some (num_matched s))\<rparr>))))))"

section \<open>The weighted bipartite matcher\<close>

text \<open>
  Modelled from the spec: \<open>incidence(v)\<close> is the sequence of the ids of the edges at
  \<open>v\<close>, here in ascending order of edge id, a self-loop twice (\<^verbatim>\<open>IGRAPH_LOOPS_TWICE\<close>);
  \<open>other_endpoint(edge-id, known)\<close> is \<^verbatim>\<open>IGRAPH_OTHER\<close>; \<open>edge_endpoints(edge-id)\<close> is
  \<^verbatim>\<open>igraph_edge\<close>; \<^verbatim>\<open>igraph_create\<close> builds the undirected graph of a flat list of
  endpoint pairs.
\<close>

definition igraph_inclist_get :: "igraph_t \<Rightarrow> int \<Rightarrow> igraph_error + int list" where
  "igraph_inclist_get g v =
     (if v < 0 \<or> igraph_vcount g \<le> v then Inl OUT_OF_BOUNDS
      else Inr (concat (map (\<lambda>(idx, e).
                  (if fst e = nat v then [int idx] else []) @
                  (if snd e = nat v then [int idx] else []))
                (enumerate 0 (edgelist g)))))"

definition igraph_edge :: "igraph_t \<Rightarrow> int \<Rightarrow> igraph_error + int \<times> int" where
  "igraph_edge g eid =
     (case VECTOR (edgelist g) eid of Inl e \<Rightarrow> Inl e
      | Inr (from, to) \<Rightarrow> Inr (int from, int to))"

definition IGRAPH_OTHER :: "igraph_t \<Rightarrow> int \<Rightarrow> int \<Rightarrow> igraph_error + int" where
  "IGRAPH_OTHER g eid vid =
     (case VECTOR (edgelist g) eid of Inl e \<Rightarrow> Inl e
      | Inr (from, to) \<Rightarrow> Inr (if int to = vid then int from else int to))"

fun pairs_of :: "int list \<Rightarrow> (nat \<times> nat) list" where
  "pairs_of (u # v # rest) = (nat u, nat v) # pairs_of rest"
| "pairs_of _ = []"

definition igraph_create :: "int list \<Rightarrow> int \<Rightarrow> igraph_t" where
  "igraph_create edges n = \<lparr>vcount = nat n, directed = False, edgelist = pairs_of edges\<rparr>"

text \<open>
  \<^verbatim>\<open>igraph_real_t\<close> is modelled by the real numbers: the arithmetic of the embedding is
  exact, as that of the source is for integer weights of moderate size, the case its
  documentation supports.  \<^verbatim>\<open>IGRAPH_INFINITY\<close> occurs as the initial value of the two
  minima only; \<open>NOT_FINITE\<close> marks an infinite value about to be stored in a vector.
\<close>

datatype c_real = Finite real | IGRAPH_INFINITY

fun less_c :: "real \<Rightarrow> c_real \<Rightarrow> bool" where
  "less_c x (Finite y) = (x < y)"
| "less_c x IGRAPH_INFINITY = True"

fun plus_c :: "c_real \<Rightarrow> c_real \<Rightarrow> c_real" where
  "plus_c (Finite x) (Finite y) = Finite (x + y)"
| "plus_c _ _ = IGRAPH_INFINITY"

fun positive_c :: "c_real \<Rightarrow> bool" where
  "positive_c (Finite x) = (0 < x)"
| "positive_c IGRAPH_INFINITY = True"

text \<open>
  The working variables of \<^verbatim>\<open>igraph_i_maximum_bipartite_matching_weighted\<close>, lines 541
  to 1022.  \<^verbatim>\<open>smaller_set\<close> and \<^verbatim>\<open>larger_set\<close> hold vertex ids in vectors of reals; they
  are lists of integers here.
\<close>

record hungarian =
  match_w :: "int list"
  slack :: "real list"
  parent :: "int list"
  vec1 :: "int list"
  vec2 :: "int list"
  labels_w :: "real list"
  queue_w :: "int list"
  msize :: int
  dual :: real
  tight_phantom_edges :: "int list list"
  alternating_path_endpoint :: int

text \<open>Step (3), lines 624 to 647: the initial label of a vertex of the smaller set.\<close>

definition max_weight_edge ::
  "igraph_t \<Rightarrow> bool list \<Rightarrow> real list \<Rightarrow> int \<Rightarrow> int \<Rightarrow> real \<Rightarrow> igraph_error + real" where
  "max_weight_edge g types weights i k max_weight =
     (case IGRAPH_OTHER g k i of Inl e \<Rightarrow> Inl e | Inr u \<Rightarrow>
      case VECTOR types u of Inl e \<Rightarrow> Inl e | Inr tu \<Rightarrow>
      case VECTOR types i of Inl e \<Rightarrow> Inl e | Inr ti \<Rightarrow>
        if tu = ti then Inl IGRAPH_EINVAL
        else (case VECTOR weights k of Inl e \<Rightarrow> Inl e | Inr wk \<Rightarrow>
                if wk > max_weight then Inr wk else Inr max_weight))"

definition initial_label ::
  "igraph_t \<Rightarrow> bool list \<Rightarrow> real list \<Rightarrow> bool \<Rightarrow> nat \<Rightarrow> hungarian \<Rightarrow> igraph_error + hungarian" where
  "initial_label g types weights smaller_set_type i s =
     (case VECTOR types (int i) of Inl e \<Rightarrow> Inl e | Inr ti \<Rightarrow>
        if ti \<noteq> smaller_set_type then
          (case VECTOR_set (labels_w s) (int i) 0 of Inl e \<Rightarrow> Inl e
           | Inr l \<Rightarrow> Inr (s\<lparr>labels_w := l\<rparr>))
        else
          (case igraph_inclist_get g (int i) of Inl e \<Rightarrow> Inl e | Inr neis \<Rightarrow>
           case for_each (max_weight_edge g types weights (int i)) neis 0 of
             Inl e \<Rightarrow> Inl e
           | Inr max_weight \<Rightarrow>
               (case VECTOR_set (labels_w s) (int i) max_weight of Inl e \<Rightarrow> Inl e
                | Inr l \<Rightarrow> Inr (s\<lparr>labels_w := l, dual := dual s + max_weight\<rparr>))))"

text \<open>Lines 652 to 660: the slack of every edge; the tight ones go to \<^verbatim>\<open>vec1\<close>.\<close>

definition initial_slack ::
  "igraph_t \<Rightarrow> real list \<Rightarrow> real \<Rightarrow> nat \<Rightarrow> hungarian \<Rightarrow> igraph_error + hungarian" where
  "initial_slack g weights eps i s =
     (case VECTOR (vec2 s) (2 * int i) of Inl e \<Rightarrow> Inl e | Inr u \<Rightarrow>
      case VECTOR (vec2 s) (2 * int i + 1) of Inl e \<Rightarrow> Inl e | Inr v \<Rightarrow>
      case VECTOR (labels_w s) u of Inl e \<Rightarrow> Inl e | Inr lu \<Rightarrow>
      case VECTOR (labels_w s) v of Inl e \<Rightarrow> Inl e | Inr lv \<Rightarrow>
      case VECTOR weights (int i) of Inl e \<Rightarrow> Inl e | Inr wi \<Rightarrow>
      case VECTOR_set (slack s) (int i) (lu + lv - wi) of Inl e \<Rightarrow> Inl e | Inr sl \<Rightarrow>
        if lu + lv - wi \<le> eps then Inr (s\<lparr>slack := sl, vec1 := vec1 s @ [u, v]\<rparr>)
        else Inr (s\<lparr>slack := sl\<rparr>))"

text \<open>Step (7), lines 682 to 692: the unmatched vertices of the smaller set are the roots.\<close>

definition add_root :: "int \<Rightarrow> hungarian \<Rightarrow> igraph_error + hungarian" where
  "add_root i s =
     (case VECTOR (match_w s) i of Inl e \<Rightarrow> Inl e | Inr mi \<Rightarrow>
        if mi = - 1 then
          (case VECTOR_set (parent s) i i of Inl e \<Rightarrow> Inl e | Inr p \<Rightarrow>
             Inr (s\<lparr>queue_w := queue_w s @ [i], parent := p, vec1 := vec1 s @ [i]\<rparr>))
        else Inr s)"

text \<open>
  Step (8), lines 707 to 786.  \<open>reach\<close> is the part the two inner loops share, from
  \<^verbatim>\<open>VECTOR(parent)[u] = v\<close> on; its flag says that the loop was left by \<^verbatim>\<open>break\<close>.
\<close>

definition reach :: "int \<Rightarrow> int \<Rightarrow> hungarian \<Rightarrow> igraph_error + bool \<times> hungarian" where
  "reach v u s =
     (case VECTOR_set (parent s) u v of Inl e \<Rightarrow> Inl e | Inr p \<Rightarrow>
      case VECTOR (match_w s) u of Inl e \<Rightarrow> Inl e | Inr w \<Rightarrow>
        if w = - 1 then
          Inr (True, s\<lparr>parent := p, vec2 := vec2 s @ [u], alternating_path_endpoint := u\<rparr>)
        else
          (case VECTOR_set p w u of Inl e \<Rightarrow> Inl e | Inr p1 \<Rightarrow>
             Inr (False, s\<lparr>parent := p1, vec2 := vec2 s @ [u], queue_w := queue_w s @ [w],
                           vec1 := vec1 s @ [w]\<rparr>)))"

fun scan_real :: "igraph_t \<Rightarrow> real \<Rightarrow> int \<Rightarrow> int list \<Rightarrow> hungarian \<Rightarrow> igraph_error + hungarian" where
  "scan_real g eps v [] s = Inr s"
| "scan_real g eps v (j # rest) s =
     (case VECTOR (slack s) j of Inl e \<Rightarrow> Inl e | Inr sl \<Rightarrow>
        if \<not> sl \<le> eps then scan_real g eps v rest s
        else (case IGRAPH_OTHER g j v of Inl e \<Rightarrow> Inl e | Inr u \<Rightarrow>
          case VECTOR (parent s) u of Inl e \<Rightarrow> Inl e | Inr pu \<Rightarrow>
            if pu \<ge> 0 then scan_real g eps v rest s
            else (case reach v u s of Inl e \<Rightarrow> Inl e
                  | Inr (left, s') \<Rightarrow> if left then Inr s' else scan_real g eps v rest s')))"

fun scan_phantom :: "real \<Rightarrow> int \<Rightarrow> int list \<Rightarrow> hungarian \<Rightarrow> igraph_error + hungarian" where
  "scan_phantom eps v [] s = Inr s"
| "scan_phantom eps v (u # rest) s =
     (case VECTOR (parent s) u of Inl e \<Rightarrow> Inl e | Inr pu \<Rightarrow>
        if pu \<ge> 0 then scan_phantom eps v rest s
        else (case VECTOR (labels_w s) v of Inl e \<Rightarrow> Inl e | Inr lv \<Rightarrow>
          case VECTOR (labels_w s) u of Inl e \<Rightarrow> Inl e | Inr lu \<Rightarrow>
            if \<bar>lv + lu\<bar> > eps then scan_phantom eps v rest s
            else (case reach v u s of Inl e \<Rightarrow> Inl e
                  | Inr (left, s') \<Rightarrow> if left then Inr s' else scan_phantom eps v rest s')))"

partial_function (option) bfs ::
  "igraph_t \<Rightarrow> real \<Rightarrow> hungarian \<Rightarrow> (igraph_error + hungarian) option" where
  "bfs g eps s =
     (case queue_w s of
        [] \<Rightarrow> Some (Inr s)
      | v # rest \<Rightarrow>
          (case igraph_inclist_get g v of Inl e \<Rightarrow> Some (Inl e) | Inr neis \<Rightarrow>
           case scan_real g eps v neis (s\<lparr>queue_w := rest\<rparr>) of
             Inl e \<Rightarrow> Some (Inl e)
           | Inr s1 \<Rightarrow>
               (case VECTOR (tight_phantom_edges s1) v of Inl e \<Rightarrow> Some (Inl e) | Inr neis2 \<Rightarrow>
                case scan_phantom eps v neis2 s1 of
                  Inl e \<Rightarrow> Some (Inl e)
                | Inr s2 \<Rightarrow> bfs g eps s2)))"

declare bfs.simps [code]

text \<open>Lines 795 to 815: the matching is flipped along the parents of the endpoint.\<close>

definition flip :: "int \<Rightarrow> int \<Rightarrow> int list \<Rightarrow> igraph_error + int list" where
  "flip v u m =
     (case VECTOR m v of Inl e \<Rightarrow> Inl e | Inr w \<Rightarrow>
      case (if w \<noteq> - 1 then VECTOR_set m w (- 1) else Inr m) of Inl e \<Rightarrow> Inl e | Inr m1 \<Rightarrow>
      case VECTOR_set m1 v u of Inl e \<Rightarrow> Inl e | Inr m2 \<Rightarrow>
      case VECTOR m2 u of Inl e \<Rightarrow> Inl e | Inr w' \<Rightarrow>
      case (if w' \<noteq> - 1 then VECTOR_set m2 w' (- 1) else Inr m2) of Inl e \<Rightarrow> Inl e | Inr m3 \<Rightarrow>
        VECTOR_set m3 u v)"

partial_function (option) augment ::
  "int list \<Rightarrow> int \<Rightarrow> int \<Rightarrow> int list \<Rightarrow> (igraph_error + int list) option" where
  "augment par v u m =
     (if u \<noteq> v then
        (case flip v u m of Inl e \<Rightarrow> Some (Inl e) | Inr m' \<Rightarrow>
         case VECTOR par u of Inl e \<Rightarrow> Some (Inl e) | Inr v' \<Rightarrow>
         case VECTOR par v' of Inl e \<Rightarrow> Some (Inl e) | Inr u' \<Rightarrow>
           augment par v' u' m')
      else Some (Inr m))"

declare augment.simps [code]

text \<open>Lines 846 to 904: the minimum slack.\<close>

definition min_larger :: "real list \<Rightarrow> int \<Rightarrow> c_real \<Rightarrow> igraph_error + c_real" where
  "min_larger l i min_slack =
     (case VECTOR l i of Inl e \<Rightarrow> Inl e | Inr li \<Rightarrow>
        if less_c li min_slack then Inr (Finite li) else Inr min_slack)"

definition min_reached :: "int list \<Rightarrow> real list \<Rightarrow> int \<Rightarrow> c_real \<Rightarrow> igraph_error + c_real" where
  "min_reached par l u min_slack_2 =
     (case VECTOR par u of Inl e \<Rightarrow> Inl e | Inr pu \<Rightarrow>
        if pu < 0 then Inr min_slack_2
        else (case VECTOR l u of Inl e \<Rightarrow> Inl e | Inr lu \<Rightarrow>
                if less_c lu min_slack_2 then Inr (Finite lu) else Inr min_slack_2))"

definition min_edge :: "igraph_t \<Rightarrow> hungarian \<Rightarrow> int \<Rightarrow> int \<Rightarrow> c_real \<Rightarrow> igraph_error + c_real" where
  "min_edge g s u e min_slack =
     (case IGRAPH_OTHER g e u of Inl x \<Rightarrow> Inl x | Inr v \<Rightarrow>
      case VECTOR (parent s) v of Inl x \<Rightarrow> Inl x | Inr pv \<Rightarrow>
        if pv \<ge> 0 then Inr min_slack
        else (case VECTOR (slack s) e of Inl x \<Rightarrow> Inl x | Inr se \<Rightarrow>
                if less_c se min_slack then Inr (Finite se) else Inr min_slack))"

definition min_edges :: "igraph_t \<Rightarrow> hungarian \<Rightarrow> int \<Rightarrow> c_real \<Rightarrow> igraph_error + c_real" where
  "min_edges g s u min_slack =
     (case igraph_inclist_get g u of Inl x \<Rightarrow> Inl x
      | Inr neis \<Rightarrow> for_each (min_edge g s u) neis min_slack)"

definition minimum_slack ::
  "igraph_t \<Rightarrow> int list \<Rightarrow> hungarian \<Rightarrow> igraph_error + c_real" where
  "minimum_slack g larger_set s =
     (case for_each (min_larger (labels_w s)) larger_set IGRAPH_INFINITY of
        Inl e \<Rightarrow> Inl e | Inr min_slack \<Rightarrow>
      case for_each (min_reached (parent s) (labels_w s)) (vec1 s) IGRAPH_INFINITY of
        Inl e \<Rightarrow> Inl e | Inr min_slack_2 \<Rightarrow>
      for_each (min_edges g s) (vec1 s) (plus_c min_slack min_slack_2))"

text \<open>Lines 907 to 941: the labels and slacks move by the minimum slack \<open>d\<close>.\<close>

definition shift_slack :: "real \<Rightarrow> int \<Rightarrow> real list \<Rightarrow> igraph_error + real list" where
  "shift_slack d e sl =
     (case VECTOR sl e of Inl x \<Rightarrow> Inl x | Inr se \<Rightarrow> VECTOR_set sl e (se + d))"

definition shift_label :: "igraph_t \<Rightarrow> real \<Rightarrow> int \<Rightarrow> hungarian \<Rightarrow> igraph_error + hungarian" where
  "shift_label g d u s =
     (case VECTOR (labels_w s) u of Inl x \<Rightarrow> Inl x | Inr lu \<Rightarrow>
      case VECTOR_set (labels_w s) u (lu + d) of Inl x \<Rightarrow> Inl x | Inr l \<Rightarrow>
      case igraph_inclist_get g u of Inl x \<Rightarrow> Inl x | Inr neis \<Rightarrow>
      case for_each (shift_slack d) neis (slack s) of Inl x \<Rightarrow> Inl x | Inr sl \<Rightarrow>
        Inr (s\<lparr>labels_w := l, slack := sl, dual := dual s + d\<rparr>))"

definition update_labels :: "igraph_t \<Rightarrow> c_real \<Rightarrow> hungarian \<Rightarrow> igraph_error + hungarian" where
  "update_labels g min_slack s =
     (if positive_c min_slack then
        (case min_slack of
           IGRAPH_INFINITY \<Rightarrow> if vec1 s = [] \<and> vec2 s = [] then Inr s else Inl NOT_FINITE
         | Finite d \<Rightarrow>
             (case for_each (shift_label g (- d)) (vec1 s) s of Inl e \<Rightarrow> Inl e | Inr s1 \<Rightarrow>
                for_each (shift_label g d) (vec2 s1) s1))
      else Inr s)"

text \<open>
  Lines 949 to 964: the tight phantom edges.  The source searches the sorted vector of
  \<open>u\<close> by bisection and inserts \<open>v\<close> at the position found.
\<close>

definition add_phantom :: "real \<Rightarrow> int \<Rightarrow> int \<Rightarrow> hungarian \<Rightarrow> igraph_error + hungarian" where
  "add_phantom eps u v s =
     (case VECTOR (labels_w s) u of Inl e \<Rightarrow> Inl e | Inr lu \<Rightarrow>
      case VECTOR (labels_w s) v of Inl e \<Rightarrow> Inl e | Inr lv \<Rightarrow>
        if lu + lv \<le> eps then
          (case VECTOR (tight_phantom_edges s) u of Inl e \<Rightarrow> Inl e | Inr neis2 \<Rightarrow>
             if v \<in> set neis2 then Inr s
             else (case VECTOR_set (tight_phantom_edges s) u (insort v neis2) of
                     Inl e \<Rightarrow> Inl e
                   | Inr t \<Rightarrow> Inr (s\<lparr>tight_phantom_edges := t\<rparr>)))
        else Inr s)"

definition add_phantoms :: "real \<Rightarrow> int list \<Rightarrow> int \<Rightarrow> hungarian \<Rightarrow> igraph_error + hungarian" where
  "add_phantoms eps larger_set u s = for_each (add_phantom eps u) larger_set s"

text \<open>
  One round of the main loop (5), lines 673 to 972, and the loop.  A round with an
  alternating path ends after the flip (\<^verbatim>\<open>continue\<close>).
\<close>

definition hungarian_round ::
  "igraph_t \<Rightarrow> real \<Rightarrow> int list \<Rightarrow> int list \<Rightarrow> hungarian \<Rightarrow> (igraph_error + hungarian) option" where
  "hungarian_round g eps smaller_set larger_set s =
     (case for_each add_root smaller_set
             (s\<lparr>vec1 := [], vec2 := [], parent := map (\<lambda>_. - 1) (parent s)\<rparr>) of
        Inl e \<Rightarrow> Some (Inl e)
      | Inr s1 \<Rightarrow>
          (case bfs g eps (s1\<lparr>alternating_path_endpoint := - 1\<rparr>) of
             None \<Rightarrow> None
           | Some (Inl e) \<Rightarrow> Some (Inl e)
           | Some (Inr s2) \<Rightarrow>
               if alternating_path_endpoint s2 \<noteq> - 1 then
                 (case VECTOR (parent s2) (alternating_path_endpoint s2) of
                    Inl e \<Rightarrow> Some (Inl e)
                  | Inr u \<Rightarrow>
                      (case augment (parent s2) (alternating_path_endpoint s2) u (match_w s2) of
                         None \<Rightarrow> None
                       | Some (Inl e) \<Rightarrow> Some (Inl e)
                       | Some (Inr m) \<Rightarrow> Some (Inr (s2\<lparr>match_w := m, msize := msize s2 + 1\<rparr>))))
               else
                 (case minimum_slack g larger_set s2 of Inl e \<Rightarrow> Some (Inl e) | Inr min_slack \<Rightarrow>
                  case update_labels g min_slack s2 of Inl e \<Rightarrow> Some (Inl e) | Inr s3 \<Rightarrow>
                    Some (for_each (add_phantoms eps larger_set) smaller_set s3))))"

partial_function (option) hungarian_loop ::
  "igraph_t \<Rightarrow> real \<Rightarrow> int list \<Rightarrow> int list \<Rightarrow> int \<Rightarrow> hungarian \<Rightarrow> (igraph_error + hungarian) option" where
  "hungarian_loop g eps smaller_set larger_set smaller_set_size s =
     (if msize s < smaller_set_size then
        (case hungarian_round g eps smaller_set larger_set s of
           None \<Rightarrow> None
         | Some (Inl e) \<Rightarrow> Some (Inl e)
         | Some (Inr s') \<Rightarrow> hungarian_loop g eps smaller_set larger_set smaller_set_size s')
      else Some (Inr s))"

declare hungarian_loop.simps [code]

text \<open>Lines 975 to 985: the pairs matched through a phantom edge are removed.\<close>

definition remove_phantom :: "int \<Rightarrow> hungarian \<Rightarrow> igraph_error + hungarian" where
  "remove_phantom u s =
     (case VECTOR (match_w s) u of Inl e \<Rightarrow> Inl e | Inr v \<Rightarrow>
        if v \<noteq> - 1 then
          (case VECTOR (tight_phantom_edges s) u of Inl e \<Rightarrow> Inl e | Inr neis2 \<Rightarrow>
             if v \<in> set neis2 then
               (case VECTOR_set (match_w s) v (- 1) of Inl e \<Rightarrow> Inl e | Inr m1 \<Rightarrow>
                case VECTOR_set m1 u (- 1) of Inl e \<Rightarrow> Inl e | Inr m2 \<Rightarrow>
                  Inr (s\<lparr>match_w := m2, msize := msize s - 1\<rparr>))
             else Inr s)
        else Inr s)"

text \<open>Lines 994 to 1004: the weight of the matching, summed up in \<open>weight_sum\<close>.\<close>

definition add_weight ::
  "igraph_t \<Rightarrow> real list \<Rightarrow> real \<Rightarrow> hungarian \<Rightarrow> nat \<Rightarrow> real \<Rightarrow> igraph_error + real" where
  "add_weight g weights eps s i weight_sum =
     (case VECTOR (slack s) (int i) of Inl e \<Rightarrow> Inl e | Inr sl \<Rightarrow>
        if sl \<le> eps then
          (case igraph_edge g (int i) of Inl e \<Rightarrow> Inl e | Inr (u, v) \<Rightarrow>
           case VECTOR (match_w s) u of Inl e \<Rightarrow> Inl e | Inr mu \<Rightarrow>
           case VECTOR weights (int i) of Inl e \<Rightarrow> Inl e | Inr wi \<Rightarrow>
             if mu = v then Inr (weight_sum + wi) else Inr weight_sum)
        else Inr weight_sum)"

text \<open>
  The branch \<^verbatim>\<open>weights == 0\<close> of \<^verbatim>\<open>igraph_maximum_bipartite_matching\<close>, lines 294 to
  307, with the check of the types vector before it.  The weighted matcher calls the
  entry point with null weights in its step (4), so this branch comes first.
\<close>

definition maximum_bipartite_matching_null_weights ::
  "igraph_t \<Rightarrow> bool list \<Rightarrow> outputs \<Rightarrow> (igraph_error + outputs) option" where
  "maximum_bipartite_matching_null_weights g types out =
     (if int (length types) < igraph_vcount g then Some (Inl IGRAPH_EINVAL)
      else (case igraph_i_maximum_bipartite_matching_unweighted g types out of
              None \<Rightarrow> None
            | Some (Inl e) \<Rightarrow> Some (Inl e)
            | Some (Inr out1) \<Rightarrow>
                (case matching_weight out1 of
                   None \<Rightarrow> Some (Inr out1)
                 | Some _ \<Rightarrow>
                     (case matching_size out1 of
                        None \<Rightarrow> Some (Inl OUT_OF_BOUNDS)
                      | Some sz \<Rightarrow> Some (Inr (out1\<lparr>matching_weight := Some (real_of_int sz)\<rparr>))))))"

text \<open>Step (2), lines 601 to 618: the vertices of type false are counted.\<close>

definition count_false :: "bool list \<Rightarrow> nat \<Rightarrow> int \<Rightarrow> igraph_error + int" where
  "count_false types i j =
     (case VECTOR types (int i) of Inl e \<Rightarrow> Inl e | Inr ti \<Rightarrow>
        if ti = False then Inr (j + 1) else Inr j)"

definition split_sets ::
  "bool list \<Rightarrow> bool \<Rightarrow> nat \<Rightarrow> int list \<times> int list \<Rightarrow> igraph_error + int list \<times> int list" where
  "split_sets types smaller_set_type i s =
     (case s of (smaller_set, larger_set) \<Rightarrow>
      case VECTOR types (int i) of Inl e \<Rightarrow> Inl e | Inr ti \<Rightarrow>
        if ti = smaller_set_type then Inr (smaller_set @ [int i], larger_set)
        else Inr (smaller_set, larger_set @ [int i]))"

text \<open>
  Steps (1) to (4): the labels and slacks, then the maximum matching of the graph of
  tight edges, computed by the public entry point without weights.
\<close>

definition hungarian_start ::
  "igraph_t \<Rightarrow> bool list \<Rightarrow> real list \<Rightarrow> real \<Rightarrow> bool \<Rightarrow> (igraph_error + hungarian) option" where
  "hungarian_start g types weights eps smaller_set_type =
     (let n = vcount g; no_of_edges = length (edgelist g) in
      case for_each (initial_label g types weights smaller_set_type) [0..<n]
             \<lparr>match_w = replicate n 0, slack = replicate no_of_edges 0,
              parent = replicate n 0, vec1 = [], vec2 = [],
              labels_w = replicate n 0, queue_w = [], msize = 0, dual = 0,
              tight_phantom_edges = replicate n [], alternating_path_endpoint = 0\<rparr> of
        Inl e \<Rightarrow> Some (Inl e)
      | Inr s1 \<Rightarrow>
          (case for_each (initial_slack g weights eps) [0..<no_of_edges]
                  (s1\<lparr>vec1 := [],
                      vec2 := concat (map (\<lambda>(from, to). [int from, int to]) (edgelist g))\<rparr>) of
             Inl e \<Rightarrow> Some (Inl e)
           | Inr s2 \<Rightarrow>
               (case maximum_bipartite_matching_null_weights
                       (igraph_create (vec1 s2) (igraph_vcount g)) types
                       \<lparr>matching_size = Some (msize s2), matching_weight = None,
                        matching = Some (match_w s2)\<rparr> of
                  None \<Rightarrow> None
                | Some (Inl e) \<Rightarrow> Some (Inl e)
                | Some (Inr out) \<Rightarrow>
                    (case (matching out, matching_size out) of
                       (Some m, Some sz) \<Rightarrow> Some (Inr (s2\<lparr>vec2 := [], match_w := m, msize := sz\<rparr>))
                     | _ \<Rightarrow> Some (Inl OUT_OF_BOUNDS)))))"

definition igraph_i_maximum_bipartite_matching_weighted ::
  "igraph_t \<Rightarrow> bool list \<Rightarrow> outputs \<Rightarrow> real list \<Rightarrow> real \<Rightarrow> (igraph_error + outputs) option" where
  "igraph_i_maximum_bipartite_matching_weighted g types out weights eps0 =
     (let no_of_nodes = igraph_vcount g;
          eps = (if eps0 < 0 then 0 else eps0) in
      case for_each (count_false types) [0..<vcount g] 0 of Inl e \<Rightarrow> Some (Inl e) | Inr j \<Rightarrow>
      let smaller_set_type = (j > no_of_nodes div 2);
          smaller_set_size = (if smaller_set_type then no_of_nodes - j else j) in
      case for_each (split_sets types smaller_set_type) [0..<vcount g] ([], []) of
        Inl e \<Rightarrow> Some (Inl e)
      | Inr (smaller_set, larger_set) \<Rightarrow>
          (case hungarian_start g types weights eps smaller_set_type of
             None \<Rightarrow> None
           | Some (Inl e) \<Rightarrow> Some (Inl e)
           | Some (Inr s) \<Rightarrow>
               (case hungarian_loop g eps smaller_set larger_set smaller_set_size s of
                  None \<Rightarrow> None
                | Some (Inl e) \<Rightarrow> Some (Inl e)
                | Some (Inr s1) \<Rightarrow>
                    (case for_each remove_phantom smaller_set s1 of
                       Inl e \<Rightarrow> Some (Inl e)
                     | Inr s2 \<Rightarrow>
                         (let out1 = out\<lparr>
                                matching := (case matching out of None \<Rightarrow> None
                                             | Some _ \<Rightarrow> Some (match_w s2)),
                                matching_size := (case matching_size out of None \<Rightarrow> None
                                                  | Some _ \<Rightarrow> Some (msize s2))\<rparr> in
                          case matching_weight out of
                            None \<Rightarrow> Some (Inr out1)
                          | Some _ \<Rightarrow>
                              (case for_each (add_weight g weights eps s2)
                                      [0..<length (edgelist g)] 0 of
                                 Inl e \<Rightarrow> Some (Inl e)
                               | Inr w \<Rightarrow> Some (Inr (out1\<lparr>matching_weight := Some w\<rparr>))))))))"

text \<open>\<^verbatim>\<open>igraph_maximum_bipartite_matching\<close>, lines 288 to 313.\<close>

definition igraph_maximum_bipartite_matching ::
  "igraph_t \<Rightarrow> bool list \<Rightarrow> outputs \<Rightarrow> real list option \<Rightarrow> real \<Rightarrow> (igraph_error + outputs) option" where
  "igraph_maximum_bipartite_matching g types out weights eps =
     (if int (length types) < igraph_vcount g then Some (Inl IGRAPH_EINVAL)
      else (case weights of
              None \<Rightarrow> maximum_bipartite_matching_null_weights g types out
            | Some w \<Rightarrow>
                if int (length w) < igraph_ecount g then Some (Inl IGRAPH_EINVAL)
                else igraph_i_maximum_bipartite_matching_weighted g types out w eps))"

section \<open>The general-graph matcher\<close>

text \<open>Integer division of C, which truncates towards zero.\<close>

definition c_div :: "int \<Rightarrow> int \<Rightarrow> int" where
  "c_div a b = sgn a * sgn b * (\<bar>a\<bar> div \<bar>b\<bar>)"

text \<open>
  \<^verbatim>\<open>igraph_vector_int_push_back(igraph_vector_int_list_get_ptr(&l, idx), x)\<close>
\<close>

definition push_back_at :: "int list list \<Rightarrow> int \<Rightarrow> int \<Rightarrow> igraph_error + int list list" where
  "push_back_at l idx x =
     (case VECTOR l idx of Inl e \<Rightarrow> Inl e | Inr xs \<Rightarrow> VECTOR_set l idx (xs @ [x]))"

text \<open>
  The working variables of \<^verbatim>\<open>igraph_i_maximum_matching_unweighted\<close>, lines 1093 to
  1376.  The vector \<^verbatim>\<open>visited_nodes\<close> is declared at line 1135 and its initialisation
  is commented out at line 1159, so the variable holds whatever the stack holds: it is
  \<open>None\<close>, and it would be \<open>Some\<close> of its elements had it been initialised.
  Allocation failures are not modelled.
\<close>

record search_state =
  even_level :: "int list"
  odd_level :: "int list"
  blossom :: "int list"
  visited_nodes :: "bool list option"
  visited_edges :: "bool list"
  used_edges :: "bool list"
  erased_nodes :: "bool list"
  predecessors :: "int list list"
  unused_ancestors :: "int list list"
  unvisited_ancestors :: "int list list"
  anomalies :: "int list list"
  bridges :: "int list list"
  match_g :: "int list"
  neighbors :: "int list"
  level_i_queue :: "int list"
  next_level_i_queue :: "int list"

definition search_init :: "igraph_t \<Rightarrow> search_state" where
  "search_init g =
     (let n = vcount g in
      \<lparr>even_level = replicate n 0, odd_level = replicate n 0, blossom = replicate n 0,
       visited_nodes = None,
       visited_edges = replicate n False, used_edges = replicate n False,
       erased_nodes = replicate n False,
       predecessors = replicate n [], unused_ancestors = replicate n [],
       unvisited_ancestors = replicate n [], anomalies = replicate n [],
       bridges = replicate (2 * n) [],
       match_g = replicate n (- 1), neighbors = [],
       level_i_queue = [], next_level_i_queue = []\<rparr>)"

text \<open>
  Modelled from the spec: \<^verbatim>\<open>igraph_vector_bool_fill\<close> and
  \<^verbatim>\<open>igraph_vector_bool_destroy\<close> belong to the vector library, which is not part of the
  sources at hand.  Both work through the storage pointers of the vector they are given;
  in a vector that was never initialised these are indeterminate, and C defines no
  result for the call.
\<close>

definition igraph_vector_bool_fill :: "bool list option \<Rightarrow> bool \<Rightarrow> igraph_error + bool list option" where
  "igraph_vector_bool_fill v x =
     (case v of None \<Rightarrow> Inl UNINITIALIZED | Some xs \<Rightarrow> Inr (Some (map (\<lambda>_. x) xs)))"

definition igraph_vector_bool_destroy :: "bool list option \<Rightarrow> igraph_error + unit" where
  "igraph_vector_bool_destroy v = (case v of None \<Rightarrow> Inl UNINITIALIZED | Some _ \<Rightarrow> Inr ())"

text \<open>
  The beginning of a phase, lines 1210 to 1240, up to \<^verbatim>\<open>i = -1\<close>, in the order of the
  source: the three level vectors, the lists of every vertex, the fill of
  \<^verbatim>\<open>visited_nodes\<close> (line 1226), the other three marks, the bridges.
\<close>

definition clear_at :: "nat \<Rightarrow> int list list \<Rightarrow> igraph_error + int list list" where
  "clear_at j l = VECTOR_set l (int j) []"

definition phase_reset :: "igraph_t \<Rightarrow> search_state \<Rightarrow> igraph_error + search_state" where
  "phase_reset g s =
     (let n = vcount g;
          s1 = s\<lparr>even_level := map (\<lambda>_. - 1) (even_level s),
                 odd_level := map (\<lambda>_. - 1) (odd_level s),
                 blossom := map (\<lambda>_. - 1) (blossom s)\<rparr> in
      case for_each clear_at [0..<n] (predecessors s1) of Inl e \<Rightarrow> Inl e | Inr p \<Rightarrow>
      case for_each clear_at [0..<n] (unused_ancestors s1) of Inl e \<Rightarrow> Inl e | Inr ua \<Rightarrow>
      case for_each clear_at [0..<n] (unvisited_ancestors s1) of Inl e \<Rightarrow> Inl e | Inr va \<Rightarrow>
      case for_each clear_at [0..<n] (anomalies s1) of Inl e \<Rightarrow> Inl e | Inr a \<Rightarrow>
      case igraph_vector_bool_fill (visited_nodes s1) False of Inl e \<Rightarrow> Inl e | Inr vn \<Rightarrow>
      case for_each clear_at [0..<n] (bridges s1) of Inl e \<Rightarrow> Inl e | Inr b \<Rightarrow>
        Inr (s1\<lparr>predecessors := p, unused_ancestors := ua, unvisited_ancestors := va,
                anomalies := a,
                visited_nodes := vn,
                visited_edges := map (\<lambda>_. False) (visited_edges s1),
                used_edges := map (\<lambda>_. False) (used_edges s1),
                erased_nodes := map (\<lambda>_. False) (erased_nodes s1),
                bridges := b\<rparr>))"

text \<open>Lines 1244 to 1253: every exposed vertex gets even level 0 and enters the queue.\<close>

definition expose :: "nat \<Rightarrow> search_state \<Rightarrow> igraph_error + search_state" where
  "expose j s =
     (case VECTOR (match_g s) (int j) of Inl e \<Rightarrow> Inl e | Inr mj \<Rightarrow>
        if mj = - 1 then
          (case VECTOR_set (even_level s) (int j) 0 of Inl e \<Rightarrow> Inl e | Inr el \<Rightarrow>
             Inr (s\<lparr>even_level := el, level_i_queue := level_i_queue s @ [int j]\<rparr>))
        else Inr s)"

text \<open>Lines 1269 to 1299: the neighbour \<open>u\<close> of the vertex \<open>v\<close> popped at the even level \<open>i\<close>.\<close>

definition add_predecessor :: "int \<Rightarrow> int \<Rightarrow> search_state \<Rightarrow> igraph_error + search_state" where
  "add_predecessor u v s =
     (case push_back_at (predecessors s) u v of Inl e \<Rightarrow> Inl e | Inr p \<Rightarrow>
      case push_back_at (unused_ancestors s) u v of Inl e \<Rightarrow> Inl e | Inr ua \<Rightarrow>
      case push_back_at (unvisited_ancestors s) u v of Inl e \<Rightarrow> Inl e | Inr va \<Rightarrow>
        Inr (s\<lparr>predecessors := p, unused_ancestors := ua, unvisited_ancestors := va\<rparr>))"

definition add_bridge :: "int \<Rightarrow> int \<Rightarrow> int \<Rightarrow> search_state \<Rightarrow> igraph_error + search_state" where
  "add_bridge temp u v s =
     (case push_back_at (bridges s) temp u of Inl e \<Rightarrow> Inl e | Inr b1 \<Rightarrow>
      case push_back_at b1 temp v of Inl e \<Rightarrow> Inl e | Inr b2 \<Rightarrow>
        Inr (s\<lparr>bridges := b2\<rparr>))"

definition even_visit :: "int \<Rightarrow> int \<Rightarrow> int \<Rightarrow> search_state \<Rightarrow> igraph_error + search_state" where
  "even_visit i v u s =
     (case VECTOR (even_level s) u of Inl e \<Rightarrow> Inl e | Inr eu \<Rightarrow>
        if eu \<noteq> - 1 then
          (case VECTOR (even_level s) v of Inl e \<Rightarrow> Inl e | Inr ev \<Rightarrow>
             add_bridge (c_div (eu + ev) 2) u v s)
        else
          (case VECTOR (odd_level s) u of Inl e \<Rightarrow> Inl e | Inr ou \<Rightarrow>
           case (if ou = - 1 then
                   (case VECTOR_set (odd_level s) u (i + 1) of Inl e \<Rightarrow> Inl e | Inr ol \<Rightarrow>
                      Inr (s\<lparr>odd_level := ol,
                             next_level_i_queue := next_level_i_queue s @ [u]\<rparr>))
                 else Inr s) of Inl e \<Rightarrow> Inl e | Inr s1 \<Rightarrow>
           case VECTOR (odd_level s1) u of Inl e \<Rightarrow> Inl e | Inr ou1 \<Rightarrow>
           case (if ou1 = i + 1 then add_predecessor u v s1 else Inr s1) of
             Inl e \<Rightarrow> Inl e | Inr s2 \<Rightarrow>
           case VECTOR (odd_level s2) u of Inl e \<Rightarrow> Inl e | Inr ou2 \<Rightarrow>
             if ou2 < i then
               (case push_back_at (anomalies s2) u v of Inl e \<Rightarrow> Inl e | Inr a \<Rightarrow>
                  Inr (s2\<lparr>anomalies := a\<rparr>))
             else Inr s2))"

text \<open>
  Lines 1264 to 1301.  The queue being emptied is the second argument; the body pushes
  to \<^verbatim>\<open>next_level_i_queue\<close> only.  The error code of \<^verbatim>\<open>igraph_neighbors\<close> is
  dropped by the source: on an error the vector \<^verbatim>\<open>neighbors\<close> keeps its contents.
\<close>

fun even_level_loop :: "igraph_t \<Rightarrow> int \<Rightarrow> int list \<Rightarrow> search_state \<Rightarrow> igraph_error + search_state" where
  "even_level_loop g i [] s = Inr (s\<lparr>level_i_queue := []\<rparr>)"
| "even_level_loop g i (v # q) s =
     (let ns = (case igraph_neighbors g v of Inl e \<Rightarrow> neighbors s | Inr ns \<Rightarrow> ns) in
      case for_each (even_visit i v) ns (s\<lparr>level_i_queue := q, neighbors := ns\<rparr>) of
        Inl e \<Rightarrow> Inl e
      | Inr s' \<Rightarrow> even_level_loop g i q s')"

text \<open>Lines 1307 to 1330: the vertex \<open>v\<close> popped at the odd level \<open>i\<close>.\<close>

definition odd_visit :: "int \<Rightarrow> int \<Rightarrow> search_state \<Rightarrow> igraph_error + search_state" where
  "odd_visit i v s =
     (case VECTOR (match_g s) v of Inl e \<Rightarrow> Inl e | Inr u \<Rightarrow>
      case VECTOR (odd_level s) u of Inl e \<Rightarrow> Inl e | Inr ou \<Rightarrow>
      case (if ou = i then
              (case VECTOR (odd_level s) v of Inl e \<Rightarrow> Inl e | Inr ov \<Rightarrow>
                 add_bridge (c_div (ou + ov) 2) u v s)
            else Inr s) of Inl e \<Rightarrow> Inl e | Inr s1 \<Rightarrow>
      case VECTOR (odd_level s1) u of Inl e \<Rightarrow> Inl e | Inr ou1 \<Rightarrow>
        if ou1 = - 1 then
          (case VECTOR_set (even_level s1) u (i + 1) of Inl e \<Rightarrow> Inl e | Inr el \<Rightarrow>
             add_predecessor u v
               (s1\<lparr>even_level := el, next_level_i_queue := next_level_i_queue s1 @ [u]\<rparr>))
        else Inr s1)"

fun odd_level_loop :: "int \<Rightarrow> int list \<Rightarrow> search_state \<Rightarrow> igraph_error + search_state" where
  "odd_level_loop i [] s = Inr (s\<lparr>level_i_queue := []\<rparr>)"
| "odd_level_loop i (v # q) s =
     (case odd_visit i v (s\<lparr>level_i_queue := q\<rparr>) of
        Inl e \<Rightarrow> Inl e
      | Inr s' \<Rightarrow> odd_level_loop i q s')"

text \<open>
  One round of the loop \<^verbatim>\<open>while (!augmented && has_vertices)\<close>, lines 1257 to 1350, for
  the level \<open>i\<close> already incremented: the even or the odd sweep, the read of
  \<^verbatim>\<open>bridges(i)\<close> (whose loop body is empty: the call of \<^verbatim>\<open>bloss_aug\<close> is a TODO), and
  the swap of the two queues.
\<close>

definition level_round :: "igraph_t \<Rightarrow> int \<Rightarrow> search_state \<Rightarrow> igraph_error + search_state" where
  "level_round g i s =
     (case (if i mod 2 = 0 then even_level_loop g i (level_i_queue s) s
            else odd_level_loop i (level_i_queue s) s) of Inl e \<Rightarrow> Inl e | Inr s1 \<Rightarrow>
      case VECTOR (bridges s1) i of Inl e \<Rightarrow> Inl e | Inr _ \<Rightarrow>
        Inr (s1\<lparr>level_i_queue := next_level_i_queue s1,
                next_level_i_queue := level_i_queue s1\<rparr>))"

text \<open>
  The loop itself.  \<^verbatim>\<open>augmented\<close> is set to 0 before the loop and never assigned again, so
  the loop runs until \<^verbatim>\<open>has_vertices\<close> is cleared, which happens when the queue is empty
  after the swap.  A run that never leaves the loop is \<open>None\<close>.
\<close>

partial_function (option) level_search ::
  "igraph_t \<Rightarrow> int \<Rightarrow> search_state \<Rightarrow> (igraph_error + search_state) option" where
  "level_search g i s =
     (case level_round g (i + 1) s of
        Inl e \<Rightarrow> Some (Inl e)
      | Inr s' \<Rightarrow> if level_i_queue s' = [] then Some (Inr s') else level_search g (i + 1) s')"

declare level_search.simps [code]

text \<open>
  The loop \<^verbatim>\<open>while (has_vertices)\<close>, lines 1194 to 1353: a phase resets the levels, exposes
  the unmatched vertices and searches level by level.  The inner loop ends only with
  \<^verbatim>\<open>has_vertices\<close> cleared.
\<close>

definition phase_start :: "igraph_t \<Rightarrow> search_state \<Rightarrow> igraph_error + search_state" where
  "phase_start g s =
     (case phase_reset g s of Inl e \<Rightarrow> Inl e | Inr s1 \<Rightarrow> for_each expose [0..<vcount g] s1)"

partial_function (option) phases ::
  "igraph_t \<Rightarrow> bool \<Rightarrow> search_state \<Rightarrow> (igraph_error + search_state) option" where
  "phases g has_vertices s =
     (if \<not> has_vertices then Some (Inr s)
      else (case phase_start g s of
              Inl e \<Rightarrow> Some (Inl e)
            | Inr s1 \<Rightarrow>
                (case level_search g (- 1) s1 of
                   None \<Rightarrow> None
                 | Some (Inl e) \<Rightarrow> Some (Inl e)
                 | Some (Inr s2) \<Rightarrow> phases g False s2)))"

declare phases.simps [code]

text \<open>
  \<^verbatim>\<open>igraph_i_maximum_matching_unweighted\<close>: after the search the function stores 0 in
  \<^verbatim>\<open>*matching_size\<close> (line 1356) and destroys its working vectors, \<^verbatim>\<open>visited_nodes\<close>
  (line 1361) and \<^verbatim>\<open>match\<close> among them; the parameter \<^verbatim>\<open>matching\<close> is not mentioned in
  the body.  The vectors destroyed before \<^verbatim>\<open>visited_nodes\<close> were initialised.
\<close>

definition igraph_i_maximum_matching_unweighted ::
  "igraph_t \<Rightarrow> outputs \<Rightarrow> (igraph_error + outputs) option" where
  "igraph_i_maximum_matching_unweighted g out =
     (case phases g (vcount g \<noteq> 0) ((search_init g)\<lparr>match_g := map (\<lambda>_. - 1) (match_g (search_init g))\<rparr>) of
        None \<Rightarrow> None
      | Some (Inl e) \<Rightarrow> Some (Inl e)
      | Some (Inr s) \<Rightarrow>
          (case matching_size out of
             None \<Rightarrow> Some (Inl OUT_OF_BOUNDS)
           | Some _ \<Rightarrow>
               (case igraph_vector_bool_destroy (visited_nodes s) of
                  Inl e \<Rightarrow> Some (Inl e)
                | Inr _ \<Rightarrow> Some (Inr (out\<lparr>matching_size := Some 0\<rparr>)))))"

text \<open>
  \<^verbatim>\<open>igraph_maximum_matching\<close>, lines 1079 to 1090: the parameters \<^verbatim>\<open>matching_weight\<close> and
  \<^verbatim>\<open>weights\<close> are not used, the error code of the call is dropped, and the function
  returns \<^verbatim>\<open>IGRAPH_SUCCESS\<close>.  The only failures of the callee in this embedding are the
  markers \<open>OUT_OF_BOUNDS\<close> and \<open>UNINITIALIZED\<close>, after which C defines no result at
  all; they are passed on.
\<close>

definition igraph_maximum_matching ::
  "igraph_t \<Rightarrow> outputs \<Rightarrow> real list option \<Rightarrow> (igraph_error + outputs) option" where
  "igraph_maximum_matching g out weights =
     (case igraph_i_maximum_matching_unweighted g out of
        None \<Rightarrow> None
      | Some (Inl e) \<Rightarrow> Some (Inl e)
      | Some (Inr out') \<Rightarrow> Some (Inr out'))"

section \<open>The properties as the specification words them\<close>

text \<open>\<open>u\<close> and \<open>v\<close> are joined by an edge, in either direction.\<close>

definition has_edge :: "igraph_t \<Rightarrow> nat \<Rightarrow> nat \<Rightarrow> bool" where
  "has_edge g u v \<longleftrightarrow> (u, v) \<in> set (edgelist g) \<or> (v, u) \<in> set (edgelist g)"

text \<open>A types vector, when one is passed, has an entry for every vertex.\<close>

definition types_cover :: "igraph_t \<Rightarrow> bool list option \<Rightarrow> bool" where
  "types_cover g types = (case types of None \<Rightarrow> True | Some t \<Rightarrow> vcount g \<le> length t)"

text \<open>
  The five defects of a candidate matching that section 4.1 of the specification lists:
  (a) a wrong length, (b) an entry outside \<open>[-1, n)\<close>, (c) an asymmetric pairing,
  (d) a pair without an edge in either direction, (e) a pair of equal types.
\<close>

definition matching_defect :: "igraph_t \<Rightarrow> bool list option \<Rightarrow> int list \<Rightarrow> bool" where
  "matching_defect g types m \<longleftrightarrow>
     length m \<noteq> vcount g
   \<or> (\<exists>i\<in>{0..<vcount g}. m ! i < - 1 \<or> int (vcount g) \<le> m ! i)
   \<or> (\<exists>i\<in>{0..<vcount g}. 0 \<le> m ! i \<and> m ! i < int (vcount g) \<and> m ! nat (m ! i) \<noteq> int i)
   \<or> (\<exists>i\<in>{0..<vcount g}. 0 \<le> m ! i \<and> m ! i < int (vcount g) \<and> \<not> has_edge g i (nat (m ! i)))
   \<or> (case types of None \<Rightarrow> False | Some t \<Rightarrow>
         (\<exists>i\<in>{0..<vcount g}. 0 \<le> m ! i \<and> m ! i < int (vcount g) \<and> t ! i = t ! nat (m ! i)))"

text \<open>What the first loop of \<^verbatim>\<open>igraph_is_matching\<close> accepts at the vertex \<open>i\<close>.\<close>

definition pair_ok :: "igraph_t \<Rightarrow> int list \<Rightarrow> nat \<Rightarrow> bool" where
  "pair_ok g m i \<longleftrightarrow>
     - 1 \<le> m ! i \<and> m ! i < int (vcount g) \<and>
     (m ! i \<noteq> - 1 \<longrightarrow> m ! nat (m ! i) = int i \<and> has_edge g i (nat (m ! i)))"

text \<open>
  Two unmatched vertices joined by an edge, of opposite types when types are given:
  \<open>two_unmatched_adjacent\<close> asks for two vertices, as the specification does;
  \<open>unmatched_neighbour\<close> also accepts a single unmatched vertex with a self-loop.
\<close>

definition unmatched_adjacent :: "igraph_t \<Rightarrow> bool list option \<Rightarrow> int list \<Rightarrow> nat \<Rightarrow> nat \<Rightarrow> bool" where
  "unmatched_adjacent g types m i k \<longleftrightarrow>
     m ! i = - 1 \<and> m ! k = - 1 \<and> has_edge g i k \<and>
     (case types of None \<Rightarrow> True | Some t \<Rightarrow> t ! i \<noteq> t ! k)"

definition two_unmatched_adjacent :: "igraph_t \<Rightarrow> bool list option \<Rightarrow> int list \<Rightarrow> bool" where
  "two_unmatched_adjacent g types m \<longleftrightarrow>
     (\<exists>i\<in>{0..<vcount g}. \<exists>k\<in>{0..<vcount g}. i \<noteq> k \<and> unmatched_adjacent g types m i k)"

definition unmatched_neighbour :: "igraph_t \<Rightarrow> bool list option \<Rightarrow> int list \<Rightarrow> bool" where
  "unmatched_neighbour g types m \<longleftrightarrow>
     (\<exists>i\<in>{0..<vcount g}. \<exists>k\<in>{0..<vcount g}. unmatched_adjacent g types m i k)"

text \<open>Some edge joins two vertices of the same type.\<close>

definition same_type_edge :: "igraph_t \<Rightarrow> bool list \<Rightarrow> bool" where
  "same_type_edge g types = list_ex (\<lambda>e. types ! fst e = types ! snd e) (edgelist g)"

subsection \<open>The graphs of the scenarios\<close>

text \<open>The star with centre 0 and the leaves \<open>1, \<dots>, k\<close>; its centre matched to leaf \<open>j\<close>.\<close>

definition star :: "nat \<Rightarrow> igraph_t" where
  "star k = \<lparr>vcount = Suc k, directed = False, edgelist = map (\<lambda>i. (0, i)) [1..<Suc k]\<rparr>"

definition star_matching :: "nat \<Rightarrow> nat \<Rightarrow> int list" where
  "star_matching k j = (replicate (Suc k) (- 1))[0 := int j, j := 0]"

text \<open>One vertex with a self-loop.\<close>

definition loop1 :: igraph_t where
  "loop1 = \<lparr>vcount = 1, directed = False, edgelist = [(0, 0)]\<rparr>"

text \<open>The triangle \<open>0-1-2\<close>, and a single edge.\<close>

definition triangle :: igraph_t where
  "triangle = \<lparr>vcount = 3, directed = False, edgelist = [(0, 1), (1, 2), (0, 2)]\<rparr>"

definition single_edge :: igraph_t where
  "single_edge = \<lparr>vcount = 2, directed = False, edgelist = [(0, 1)]\<rparr>"

text \<open>The path \<open>0-1-2-3\<close> and the complete bipartite graph on \<open>{0, 1}\<close> and \<open>{2, 3, 4}\<close>.\<close>

definition path4 :: igraph_t where
  "path4 = \<lparr>vcount = 4, directed = False, edgelist = [(0, 1), (1, 2), (2, 3)]\<rparr>"

definition k23 :: igraph_t where
  "k23 = \<lparr>vcount = 5, directed = False,
           edgelist = [(0, 2), (0, 3), (0, 4), (1, 2), (1, 3), (1, 4)]\<rparr>"

text \<open>
  Two graphs whose types vector is not a bipartition: in \<open>square_diagonal\<close>, with the
  types \<open>[F, F, T, T]\<close>, the edge \<open>2-3\<close> joins two vertices of type true; in
  \<open>crossed\<close>, with the types \<open>[F, F, T, T, F, F, T, T]\<close>, the edge \<open>2-6\<close> does.
\<close>

definition square_diagonal :: igraph_t where
  "square_diagonal = \<lparr>vcount = 4, directed = False, edgelist = [(0, 2), (1, 3), (2, 3)]\<rparr>"

definition crossed :: igraph_t where
  "crossed = \<lparr>vcount = 8, directed = False,
               edgelist = [(0, 2), (0, 3), (2, 4), (2, 6), (4, 6), (4, 7), (5, 6)]\<rparr>"

text \<open>Two parallel edges, and two disjoint edges.\<close>

definition parallel_pair :: igraph_t where
  "parallel_pair = \<lparr>vcount = 2, directed = False, edgelist = [(0, 1), (0, 1)]\<rparr>"

definition two_edges :: igraph_t where
  "two_edges = \<lparr>vcount = 4, directed = False, edgelist = [(0, 1), (2, 3)]\<rparr>"

text \<open>The caller's variables before a call: all three pointers are given.\<close>

definition fresh :: outputs where
  "fresh = \<lparr>matching_size = Some 0, matching_weight = Some 0, matching = Some []\<rparr>"

subsection \<open>Matchings of a bipartite graph, and the invariants of the push-relabel matcher\<close>

text \<open>
  The number of matched vertices of a vector: a matching of \<open>k\<close> pairs has \<open>2 * k\<close>.
\<close>

definition matched_vertices :: "int list \<Rightarrow> nat" where
  "matched_vertices m = length (filter (\<lambda>x. x \<noteq> - 1) m)"

text \<open>
  Vertices as the vectors hold them, and adjacency between them.
\<close>

definition vtx :: "igraph_t \<Rightarrow> int \<Rightarrow> bool" where
  "vtx g x \<longleftrightarrow> 0 \<le> x \<and> x < int (vcount g)"

definition adj :: "igraph_t \<Rightarrow> int \<Rightarrow> int \<Rightarrow> bool" where
  "adj g x y \<longleftrightarrow> vtx g x \<and> vtx g y \<and> has_edge g (nat x) (nat y)"

text \<open>
  A valid types vector: an entry for every vertex, and no edge inside a part.
\<close>

definition bipartition :: "igraph_t \<Rightarrow> bool list \<Rightarrow> bool" where
  "bipartition g types \<longleftrightarrow> vcount g \<le> length types \<and> \<not> same_type_edge g types"

text \<open>
  A vector that pairs vertices along edges, symmetrically; and its matched vertices of
  one type.
\<close>

definition matching_vector :: "igraph_t \<Rightarrow> int list \<Rightarrow> bool" where
  "matching_vector g M \<longleftrightarrow>
     length M = vcount g \<and>
     (\<forall>x. vtx g x \<longrightarrow> M ! nat x = - 1 \<or> (adj g x (M ! nat x) \<and> M ! nat (M ! nat x) = x))"

definition matched_side :: "igraph_t \<Rightarrow> bool list \<Rightarrow> int list \<Rightarrow> bool \<Rightarrow> int set" where
  "matched_side g types M \<sigma> = {x. vtx g x \<and> M ! nat x \<noteq> - 1 \<and> types ! nat x = \<sigma>}"

text \<open>
  The invariant of the greedy pass: the counter is the number of matched vertices of
  either type.
\<close>

definition greedy_inv :: "igraph_t \<Rightarrow> bool list \<Rightarrow> int list \<times> int \<times> int \<Rightarrow> bool" where
  "greedy_inv g types s \<longleftrightarrow>
     (case s of (M, num, j) \<Rightarrow>
        matching_vector g M \<and> (\<forall>\<sigma>. int (card (matched_side g types M \<sigma>)) = num))"

text \<open>
  The vertices of one type.  With \<open>\<sigma>\<close> the value of \<^verbatim>\<open>smaller_set\<close>, the pushes start
  from the side \<open>\<sigma>\<close> and the relabelling from the side \<open>\<not> \<sigma>\<close>.
\<close>

definition side :: "igraph_t \<Rightarrow> bool list \<Rightarrow> bool \<Rightarrow> int \<Rightarrow> bool" where
  "side g types \<sigma> x \<longleftrightarrow> vtx g x \<and> types ! nat x = \<sigma>"

text \<open>
  Labels that respect the matching, the conditions the pushes and the relabelling keep:
  on the side of the roots a label is even or at least \<open>n\<close>, an unmatched vertex has
  label 0, and the label of the partner of \<open>a\<close> exceeds the label of a neighbour of
  \<open>a\<close> by at most 2.
\<close>

definition valid_labels :: "igraph_t \<Rightarrow> bool list \<Rightarrow> bool \<Rightarrow> int list \<Rightarrow> int list \<Rightarrow> bool" where
  "valid_labels g types \<sigma> M L \<longleftrightarrow>
     length L = vcount g \<and>
     (\<forall>b. side g types (\<not> \<sigma>) b \<longrightarrow>
        0 \<le> L ! nat b \<and> (even (L ! nat b) \<or> int (vcount g) \<le> L ! nat b)) \<and>
     (\<forall>b. side g types (\<not> \<sigma>) b \<and> M ! nat b = - 1 \<longrightarrow> L ! nat b = 0) \<and>
     (\<forall>a b'. side g types \<sigma> a \<and> M ! nat a \<noteq> - 1 \<and> adj g a b' \<longrightarrow>
        L ! nat (M ! nat a) \<le> L ! nat b' + 2)"

text \<open>
  The invariant of the breadth-first search of the relabelling, for the labels \<open>L\<close> and
  the queue \<open>q\<close>.
\<close>

definition bfs_inv ::
  "igraph_t \<Rightarrow> bool list \<Rightarrow> bool \<Rightarrow> int list \<Rightarrow> int list \<Rightarrow> int list \<Rightarrow> bool" where
  "bfs_inv g types \<sigma> M L q \<longleftrightarrow>
     length L = vcount g \<and>
     (\<forall>x. vtx g x \<longrightarrow> 0 \<le> L ! nat x \<and> L ! nat x \<le> int (vcount g)) \<and>
     (\<forall>v\<in>set q. side g types (\<not> \<sigma>) v \<and> L ! nat v < int (vcount g)) \<and>
     sorted (map (\<lambda>x. L ! nat x) q) \<and>
     (\<forall>x\<in>set q. \<forall>y\<in>set q. L ! nat x \<le> L ! nat y + 2) \<and>
     (\<forall>b a. side g types (\<not> \<sigma>) b \<and> L ! nat b < int (vcount g) \<and> b \<notin> set q \<and> adj g b a \<longrightarrow>
        L ! nat a < int (vcount g) \<and> L ! nat a \<le> L ! nat b + 1) \<and>
     (\<forall>a. side g types \<sigma> a \<and> L ! nat a < int (vcount g) \<and> M ! nat a \<noteq> - 1 \<longrightarrow>
        L ! nat (M ! nat a) = L ! nat a + 1 \<and> L ! nat (M ! nat a) < int (vcount g)) \<and>
     (\<forall>b. side g types (\<not> \<sigma>) b \<and> L ! nat b < int (vcount g) \<and> M ! nat b \<noteq> - 1 \<longrightarrow>
        L ! nat (M ! nat b) < int (vcount g)) \<and>
     (\<forall>x. vtx g x \<and> 0 < L ! nat x \<and> L ! nat x < int (vcount g) \<longrightarrow>
        (\<exists>y. vtx g y \<and> L ! nat y + 1 = L ! nat x)) \<and>
     (\<forall>x. vtx g x \<and> L ! nat x < int (vcount g) \<longrightarrow> (even (L ! nat x) \<longleftrightarrow> types ! nat x \<noteq> \<sigma>)) \<and>
     (\<forall>b. side g types (\<not> \<sigma>) b \<and> M ! nat b = - 1 \<longrightarrow> L ! nat b = 0) \<and>
     (\<forall>a x. side g types \<sigma> a \<and> L ! nat a < int (vcount g) \<and> x \<in> set q \<longrightarrow>
        L ! nat a \<le> L ! nat x + 1)"

text \<open>
  The new labels are not below the old ones, up to \<open>n\<close>, on the side of the roots.
\<close>

definition above :: "igraph_t \<Rightarrow> bool list \<Rightarrow> bool \<Rightarrow> int list \<Rightarrow> int list \<Rightarrow> bool" where
  "above g types \<sigma> old L \<longleftrightarrow>
     (\<forall>b. side g types (\<not> \<sigma>) b \<longrightarrow> min (old ! nat b) (int (vcount g)) \<le> L ! nat b)"

text \<open>
  The vertices the search has not reached yet.
\<close>

definition unlabelled :: "igraph_t \<Rightarrow> int list \<Rightarrow> int set" where
  "unlabelled g L = {x. vtx g x \<and> L ! nat x = int (vcount g)}"

text \<open>
  The invariant of the loop that labels the roots, after the vertices below \<open>j\<close>.
\<close>

definition root_inv ::
  "igraph_t \<Rightarrow> bool list \<Rightarrow> bool \<Rightarrow> int list \<Rightarrow> nat \<Rightarrow> int list \<times> int list \<Rightarrow> bool" where
  "root_inv g types \<sigma> M j s \<longleftrightarrow>
     (case s of (L, q) \<Rightarrow>
        length L = vcount g \<and>
        (\<forall>x. vtx g x \<longrightarrow> L ! nat x =
           (if x < int j \<and> side g types (\<not> \<sigma>) x \<and> M ! nat x = - 1 then 0 else int (vcount g))) \<and>
        (\<forall>v. v \<in> set q \<longleftrightarrow> (v < int j \<and> side g types (\<not> \<sigma>) v \<and> M ! nat v = - 1)))"

text \<open>
  The sum of the labels of the side of the roots, each cut at \<open>n\<close>: a push raises it.
\<close>

definition potential :: "igraph_t \<Rightarrow> bool list \<Rightarrow> bool \<Rightarrow> int list \<Rightarrow> nat" where
  "potential g types \<sigma> L =
     (\<Sum>b\<in>{b. side g types (\<not> \<sigma>) b}. nat (min (L ! nat b) (int (vcount g))))"

text \<open>
  The invariant of the loop that fills the queue, after the vertices below \<open>j\<close>.
\<close>

definition active_inv ::
  "igraph_t \<Rightarrow> bool list \<Rightarrow> bool \<Rightarrow> int list \<Rightarrow> nat \<Rightarrow> int list \<Rightarrow> bool" where
  "active_inv g types \<sigma> M j q \<longleftrightarrow>
     distinct q \<and> (\<forall>v. v \<in> set q \<longleftrightarrow> (v < int j \<and> side g types \<sigma> v \<and> M ! nat v = - 1))"

text \<open>
  The invariant of the main loop: a matching with valid labels, counted by \<open>num\<close>; the
  queue holds unmatched vertices of the active side, each once, and an unmatched vertex
  of that side outside the queue has no neighbour labelled below \<open>n\<close>.
\<close>

definition pr_inv ::
  "igraph_t \<Rightarrow> bool list \<Rightarrow> bool \<Rightarrow> int list \<Rightarrow> int list \<Rightarrow> int list \<Rightarrow> int \<Rightarrow> bool" where
  "pr_inv g types \<sigma> M L q num \<longleftrightarrow>
     matching_vector g M \<and> valid_labels g types \<sigma> M L \<and>
     (\<forall>\<tau>. int (card (matched_side g types M \<tau>)) = num) \<and>
     distinct q \<and>
     (\<forall>v\<in>set q. side g types \<sigma> v \<and> M ! nat v = - 1) \<and>
     (\<forall>a b. side g types \<sigma> a \<and> M ! nat a = - 1 \<and> a \<notin> set q \<and> adj g a b \<longrightarrow>
        int (vcount g) \<le> L ! nat b)"

section \<open>The validator: what the two loops compute\<close>

lemma bex_upt: "(\<exists>i\<in>{0..<n}. P i) \<longleftrightarrow> list_ex P [0..<n]"
  by (auto simp: list_ex_iff)

lemma connected_either:
  "i < vcount g \<Longrightarrow> 0 \<le> j \<Longrightarrow> j < int (vcount g) \<Longrightarrow>
   igraph_are_connected g (int i) j = Inr c \<Longrightarrow> igraph_are_connected g j (int i) = Inr c' \<Longrightarrow>
   (c \<or> c') = has_edge g i (nat j)"
  by (auto simp: igraph_are_connected_def igraph_vcount_def has_edge_def split: if_splits)

lemma connected_defined:
  "0 \<le> a \<Longrightarrow> a < int (vcount g) \<Longrightarrow> 0 \<le> b \<Longrightarrow> b < int (vcount g) \<Longrightarrow>
   \<exists>c. igraph_are_connected g a b = Inr c"
  by (auto simp: igraph_are_connected_def igraph_vcount_def)

lemma is_matching_pairs_eq:
  assumes "length m = vcount g" "set js \<subseteq> {0..<vcount g}"
  shows "is_matching_pairs g m js = Inr (\<forall>i\<in>set js. pair_ok g m i)"
  using assms(2)
proof (induction js)
  case Nil
  then show ?case by simp
next
  case (Cons i js)
  then have i: "i < vcount g" and IH: "is_matching_pairs g m js = Inr (\<forall>i\<in>set js. pair_ok g m i)"
    by auto
  have rd: "VECTOR m (int i) = Inr (m ! i)"
    using i assms(1) by (simp add: VECTOR_def)
  show ?case
  proof (cases "m ! i < - 1 \<or> int (vcount g) \<le> m ! i")
    case True
    then show ?thesis using rd by (auto simp: igraph_vcount_def pair_ok_def)
  next
    case inr: False
    show ?thesis
    proof (cases "m ! i = - 1")
      case True
      then show ?thesis using rd inr IH by (simp add: igraph_vcount_def pair_ok_def)
    next
      case False
      with inr have j: "0 \<le> m ! i" "m ! i < int (vcount g)" by auto
      then have rd2: "VECTOR m (m ! i) = Inr (m ! nat (m ! i))"
        using assms(1) by (simp add: VECTOR_def)
      obtain c c' where c: "igraph_are_connected g (int i) (m ! i) = Inr c"
        and c': "igraph_are_connected g (m ! i) (int i) = Inr c'"
        using connected_defined[of "int i" g "m ! i"] connected_defined[of "m ! i" g "int i"] i j
        by auto
      have "(c \<or> c') = has_edge g i (nat (m ! i))"
        using connected_either[OF i j c c'] .
      then show ?thesis
        using rd rd2 inr False IH c c' j
        by (auto simp: igraph_vcount_def pair_ok_def)
    qed
  qed
qed

lemma is_matching_types_eq:
  assumes "length m = vcount g" "vcount g \<le> length t" "set js \<subseteq> {0..<vcount g}"
    and "\<forall>i\<in>{0..<vcount g}. - 1 \<le> m ! i \<and> m ! i < int (vcount g)"
  shows "is_matching_types t m js = Inr (\<forall>i\<in>set js. m ! i \<noteq> - 1 \<longrightarrow> t ! i \<noteq> t ! nat (m ! i))"
  using assms(3)
proof (induction js)
  case Nil
  then show ?case by simp
next
  case (Cons i js)
  then have i: "i < vcount g" and
    IH: "is_matching_types t m js = Inr (\<forall>i\<in>set js. m ! i \<noteq> - 1 \<longrightarrow> t ! i \<noteq> t ! nat (m ! i))"
    by auto
  have rd: "VECTOR m (int i) = Inr (m ! i)" "VECTOR t (int i) = Inr (t ! i)"
    using i assms(1,2) by (simp_all add: VECTOR_def)
  have rng: "- 1 \<le> m ! i" "m ! i < int (vcount g)" using assms(4) i by auto
  show ?case
  proof (cases "m ! i = - 1")
    case True
    then show ?thesis using rd IH by simp
  next
    case False
    then have "VECTOR t (m ! i) = Inr (t ! nat (m ! i))"
      using rng assms(2) by (simp add: VECTOR_def)
    then show ?thesis using rd IH False by auto
  qed
qed

lemma pair_ok_iff:
  "pair_ok g m i \<longleftrightarrow>
     \<not> (m ! i < - 1 \<or> int (vcount g) \<le> m ! i) \<and>
     \<not> (0 \<le> m ! i \<and> m ! i < int (vcount g) \<and> m ! nat (m ! i) \<noteq> int i) \<and>
     \<not> (0 \<le> m ! i \<and> m ! i < int (vcount g) \<and> \<not> has_edge g i (nat (m ! i)))"
  unfolding pair_ok_def by auto

lemma matching_defect_iff:
  assumes "length m = vcount g"
  shows "matching_defect g types m \<longleftrightarrow>
     \<not> ((\<forall>i\<in>{0..<vcount g}. pair_ok g m i) \<and>
        (case types of None \<Rightarrow> True
         | Some t \<Rightarrow> \<forall>i\<in>{0..<vcount g}. m ! i \<noteq> - 1 \<longrightarrow> t ! i \<noteq> t ! nat (m ! i)))"
proof -
  define A where "A i \<longleftrightarrow> m ! i < - 1 \<or> int (vcount g) \<le> m ! i" for i
  define B where "B i \<longleftrightarrow> 0 \<le> m ! i \<and> m ! i < int (vcount g) \<and> m ! nat (m ! i) \<noteq> int i" for i
  define C where "C i \<longleftrightarrow> 0 \<le> m ! i \<and> m ! i < int (vcount g) \<and> \<not> has_edge g i (nat (m ! i))" for i
  define D where "D (t::bool list) i \<longleftrightarrow> 0 \<le> m ! i \<and> m ! i < int (vcount g) \<and> t ! i = t ! nat (m ! i)" for t i
  define E where "E (t::bool list) i \<longleftrightarrow> (m ! i \<noteq> - 1 \<longrightarrow> t ! i \<noteq> t ! nat (m ! i))" for t i
  define S where "S = {0..<vcount g}"
  have p: "pair_ok g m i \<longleftrightarrow> \<not> A i \<and> \<not> B i \<and> \<not> C i" for i
    unfolding A_def B_def C_def by (rule pair_ok_iff)
  have de: "\<not> A i \<Longrightarrow> D t i \<longleftrightarrow> \<not> E t i" for t i
    unfolding A_def D_def E_def by auto
  have md: "matching_defect g types m \<longleftrightarrow>
      (\<exists>i\<in>S. A i) \<or> (\<exists>i\<in>S. B i) \<or> (\<exists>i\<in>S. C i) \<or>
      (case types of None \<Rightarrow> False | Some t \<Rightarrow> (\<exists>i\<in>S. D t i))"
    unfolding matching_defect_def A_def B_def C_def D_def S_def using assms by simp
  have goal: "(\<forall>i\<in>{0..<vcount g}. pair_ok g m i) \<and>
        (case types of None \<Rightarrow> True
         | Some t \<Rightarrow> \<forall>i\<in>{0..<vcount g}. m ! i \<noteq> - 1 \<longrightarrow> t ! i \<noteq> t ! nat (m ! i))
      \<longleftrightarrow> (\<forall>i\<in>S. \<not> A i \<and> \<not> B i \<and> \<not> C i) \<and>
          (case types of None \<Rightarrow> True | Some t \<Rightarrow> \<forall>i\<in>S. E t i)"
    unfolding S_def E_def by (simp add: p)
  show ?thesis
  proof (cases types)
    case None
    then show ?thesis unfolding md goal by auto
  next
    case (Some t)
    then show ?thesis unfolding md goal using de[of _ t] by auto
  qed
qed

lemma is_matching_result:
  assumes "types_cover g types"
  shows "igraph_is_matching g types m = Inr (\<not> matching_defect g types m)"
proof (cases "length m = vcount g")
  case False
  then show ?thesis
    by (simp add: igraph_is_matching_def igraph_vcount_def matching_defect_def)
next
  case len: True
  define P where "P \<longleftrightarrow> (\<forall>i\<in>{0..<vcount g}. pair_ok g m i)"
  have pairs: "is_matching_pairs g m [0..<vcount g] = Inr P"
    unfolding P_def using is_matching_pairs_eq[of m g "[0..<vcount g]"] len by simp
  have md: "matching_defect g types m \<longleftrightarrow>
     \<not> (P \<and> (case types of None \<Rightarrow> True
         | Some t \<Rightarrow> \<forall>i\<in>{0..<vcount g}. m ! i \<noteq> - 1 \<longrightarrow> t ! i \<noteq> t ! nat (m ! i)))"
    unfolding P_def by (rule matching_defect_iff[OF len])
  show ?thesis
  proof (cases P)
    case False
    then show ?thesis
      using pairs len md by (simp add: igraph_is_matching_def igraph_vcount_def)
  next
    case ok: True
    show ?thesis
    proof (cases types)
      case None
      then show ?thesis
        using pairs len ok md by (simp add: igraph_is_matching_def igraph_vcount_def)
    next
      case (Some t)
      then have "vcount g \<le> length t" using assms by (simp add: types_cover_def)
      moreover have "\<forall>i\<in>{0..<vcount g}. - 1 \<le> m ! i \<and> m ! i < int (vcount g)"
        using ok by (simp add: P_def pair_ok_def)
      ultimately have
        "is_matching_types t m [0..<vcount g] =
           Inr (\<forall>i\<in>{0..<vcount g}. m ! i \<noteq> - 1 \<longrightarrow> t ! i \<noteq> t ! nat (m ! i))"
        using is_matching_types_eq[of m g t "[0..<vcount g]"] len by simp
      then show ?thesis
        using pairs len ok Some md by (auto simp add: igraph_is_matching_def igraph_vcount_def)
    qed
  qed
qed


lemma set_other_ends: "k \<in> set (other_ends g i) \<longleftrightarrow> has_edge g i k"
  by (auto simp: other_ends_def has_edge_def split: if_splits) force+

lemma other_ends_range: "igraph_ok g \<Longrightarrow> k \<in> set (other_ends g i) \<Longrightarrow> k < vcount g"
  by (auto simp: other_ends_def igraph_ok_def list_all_iff split: if_splits)

lemma is_maximal_neis_eq:
  assumes "\<forall>k\<in>set ks. k < length m"
    and "case types of None \<Rightarrow> True | Some t \<Rightarrow> i < length t \<and> (\<forall>k\<in>set ks. k < length t)"
  shows "is_maximal_neis types m (int i) (map int ks) valid =
     Inr (valid \<and> \<not> (\<exists>k\<in>set ks. m ! k = - 1 \<and> (case types of None \<Rightarrow> True | Some t \<Rightarrow> t ! i \<noteq> t ! k)))"
  using assms
proof (induction ks)
  case Nil
  then show ?case by simp
next
  case (Cons k ks)
  then have rd: "VECTOR m (int k) = Inr (m ! k)" by (simp add: VECTOR_def)
  show ?case
  proof (cases types)
    case None
    then show ?thesis using Cons rd by auto
  next
    case (Some t)
    then have "VECTOR t (int i) = Inr (t ! i)" "VECTOR t (int k) = Inr (t ! k)"
      using Cons.prems by (simp_all add: VECTOR_def)
    then show ?thesis using Cons rd Some by auto
  qed
qed

lemma is_maximal_vertices_eq:
  assumes "igraph_ok g" "types_cover g types" "length m = vcount g" "set js \<subseteq> {0..<vcount g}"
  shows "is_maximal_vertices g types m js valid =
     Inr (valid \<and> \<not> (\<exists>i\<in>set js. \<exists>k\<in>{0..<vcount g}. unmatched_adjacent g types m i k))"
  using assms(4)
proof (induction js arbitrary: valid)
  case Nil
  then show ?case by simp
next
  case (Cons i js)
  then have i: "i < vcount g" and js: "set js \<subseteq> {0..<vcount g}" by auto
  have rd: "VECTOR m (int i) = Inr (m ! i)" using i assms(3) by (simp add: VECTOR_def)
  show ?case
  proof (cases "m ! i = - 1")
    case False
    then show ?thesis using rd Cons.IH[OF js] by (simp add: unmatched_adjacent_def)
  next
    case True
    let ?ks = "sort (other_ends g i)"
    have nb: "igraph_neighbors g (int i) = Inr (map int ?ks)"
      using i by (simp add: igraph_neighbors_def igraph_vcount_def)
    have rng: "\<forall>k\<in>set ?ks. k < vcount g"
      using other_ends_range[OF assms(1)] by auto
    have a1: "\<forall>k\<in>set ?ks. k < length m" using rng assms(3) by simp
    have a2: "case types of None \<Rightarrow> True | Some t \<Rightarrow> i < length t \<and> (\<forall>k\<in>set ?ks. k < length t)"
      using rng i assms(2) by (auto simp: types_cover_def split: option.splits)
    have inner: "is_maximal_neis types m (int i) (map int ?ks) valid =
       Inr (valid \<and> \<not> (\<exists>k\<in>set ?ks. m ! k = - 1 \<and> (case types of None \<Rightarrow> True | Some t \<Rightarrow> t ! i \<noteq> t ! k)))"
      by (rule is_maximal_neis_eq[OF a1 a2])
    have ex: "(\<exists>k\<in>set ?ks. m ! k = - 1 \<and> (case types of None \<Rightarrow> True | Some t \<Rightarrow> t ! i \<noteq> t ! k))
       \<longleftrightarrow> (\<exists>k\<in>{0..<vcount g}. unmatched_adjacent g types m i k)"
      using True rng by (auto simp: unmatched_adjacent_def set_other_ends)
    show ?thesis
      using rd True nb inner Cons.IH[OF js] ex by auto
  qed
qed

lemma is_maximal_matching_eq:
  assumes "igraph_ok g" "types_cover g types"
  shows "igraph_is_maximal_matching g types m =
           Inr (\<not> matching_defect g types m \<and> \<not> unmatched_neighbour g types m)"
proof (cases "matching_defect g types m")
  case True
  then show ?thesis
    using is_matching_result[OF assms(2), of m] by (simp add: igraph_is_maximal_matching_def)
next
  case False
  then have len: "length m = vcount g" by (auto simp: matching_defect_def)
  have "is_maximal_vertices g types m [0..<vcount g] True =
     Inr (True \<and> \<not> (\<exists>i\<in>set [0..<vcount g]. \<exists>k\<in>{0..<vcount g}. unmatched_adjacent g types m i k))"
    by (rule is_maximal_vertices_eq[OF assms len]) simp
  then show ?thesis
    using False is_matching_result[OF assms(2), of m]
    by (simp add: igraph_is_maximal_matching_def unmatched_neighbour_def)
qed

lemma self_pair_rejected:
  assumes "types_cover g types" and "v < vcount g" and "m ! v = int v"
    and "types \<noteq> None \<or> (v, v) \<notin> set (edgelist g)"
  shows "igraph_is_matching g types m = Inr False"
proof -
  have "matching_defect g types m"
  proof (cases "length m = vcount g")
    case False
    then show ?thesis by (simp add: matching_defect_def)
  next
    case True
    show ?thesis
    proof (cases types)
      case None
      then have "\<not> has_edge g v (nat (m ! v))" using assms by (simp add: has_edge_def)
      then have "\<exists>i\<in>{0..<vcount g}. 0 \<le> m ! i \<and> m ! i < int (vcount g) \<and> \<not> has_edge g i (nat (m ! i))"
        using assms(2,3) by (intro bexI[of _ v]) auto
      then show ?thesis unfolding matching_defect_def by blast
    next
      case (Some t)
      have "\<exists>i\<in>{0..<vcount g}. 0 \<le> m ! i \<and> m ! i < int (vcount g) \<and> t ! i = t ! nat (m ! i)"
        using assms(2,3) by (intro bexI[of _ v]) auto
      then show ?thesis unfolding matching_defect_def using Some by simp
    qed
  qed
  then show ?thesis using is_matching_result[OF assms(1), of m] by simp
qed


lemma star_ok: "igraph_ok (star k)"
  by (auto simp: igraph_ok_def star_def list_all_iff)

lemma star_edge: "has_edge (star k) a b \<longleftrightarrow> (a = 0 \<and> 1 \<le> b \<and> b \<le> k) \<or> (b = 0 \<and> 1 \<le> a \<and> a \<le> k)"
  by (auto simp: has_edge_def star_def)

lemma star_matching_nth:
  "1 \<le> j \<Longrightarrow> j \<le> k \<Longrightarrow> i \<le> k \<Longrightarrow>
   star_matching k j ! i = (if i = j then 0 else if i = 0 then int j else - 1)"
  by (auto simp: star_matching_def nth_list_update simp del: replicate_Suc)

lemma star_no_defect:
  assumes "1 \<le> j" "j \<le> k"
  shows "\<not> matching_defect (star k) None (star_matching k j)"
proof -
  have n: "vcount (star k) = Suc k" by (simp add: star_def)
  have len: "length (star_matching k j) = Suc k" by (simp add: star_matching_def del: replicate_Suc)
  have "pair_ok (star k) (star_matching k j) i" if "i \<le> k" for i
    using that assms by (auto simp: pair_ok_def n star_matching_nth star_edge)
  then show ?thesis
    using matching_defect_iff[of "star_matching k j" "star k" None] len n by auto
qed

lemma star_no_unmatched_neighbour:
  assumes "1 \<le> j" "j \<le> k"
  shows "\<not> unmatched_neighbour (star k) None (star_matching k j)"
proof -
  have n: "vcount (star k) = Suc k" by (simp add: star_def)
  have "\<not> unmatched_adjacent (star k) None (star_matching k j) a b" if "a \<le> k" "b \<le> k" for a b
    using that assms by (auto simp: unmatched_adjacent_def star_matching_nth star_edge)
  then show ?thesis by (auto simp: unmatched_neighbour_def n)
qed

lemma star_maximal:
  "1 \<le> j \<Longrightarrow> j \<le> k \<Longrightarrow> igraph_is_maximal_matching (star k) None (star_matching k j) = Inr True"
  using is_maximal_matching_eq[OF star_ok, of k None "star_matching k j"]
    star_no_defect[of j k] star_no_unmatched_neighbour[of j k]
  by (simp add: types_cover_def)

section \<open>The general-graph matcher: every run reaches the uninitialised vector\<close>

lemma for_each_append:
  "for_each body (xs @ ys) s =
     (case for_each body xs s of Inl e \<Rightarrow> Inl e | Inr s' \<Rightarrow> for_each body ys s')"
  by (induction xs arbitrary: s) (auto split: sum.splits)

lemma for_each_invariant:
  assumes "I s" and "\<And>x s. x \<in> set xs \<Longrightarrow> I s \<Longrightarrow> \<exists>s'. body x s = Inr s' \<and> I s'"
  shows "\<exists>s'. for_each body xs s = Inr s' \<and> I s'"
  using assms
proof (induction xs arbitrary: s)
  case Nil
  then show ?case by simp
next
  case (Cons x xs)
  from Cons.prems obtain s1 where s1: "body x s = Inr s1" "I s1" by fastforce
  from Cons.IH[OF s1(2)] Cons.prems(2) obtain s' where "for_each body xs s1 = Inr s'" "I s'"
    by auto
  with s1 show ?case by simp
qed

lemma for_each_upt_invariant:
  assumes "I 0 s" and "\<And>j s. j < n \<Longrightarrow> I j s \<Longrightarrow> \<exists>s'. body j s = Inr s' \<and> I (Suc j) s'"
  shows "\<exists>s'. for_each body [0..<n] s = Inr s' \<and> I n s'"
  using assms(2)
proof (induction n)
  case 0
  then show ?case using assms(1) by simp
next
  case (Suc n)
  then obtain s1 where s1: "for_each body [0..<n] s = Inr s1" "I n s1" by fastforce
  from Suc.prems[of n s1] s1 obtain s' where "body n s1 = Inr s'" "I (Suc n) s'" by auto
  with s1 show ?case by (simp add: for_each_append)
qed

lemma clear_all_empty:
  assumes "n \<le> k"
  shows "for_each clear_at [0..<n] (replicate k []) = Inr (replicate k [])"
proof -
  have "\<exists>s'. for_each clear_at [0..<n] (replicate k []) = Inr s' \<and> s' = replicate k []"
  proof (rule for_each_invariant)
    show "replicate k [] = replicate k []" by simp
  next
    fix x and s :: "int list list"
    assume "x \<in> set [0..<n]" "s = replicate k []"
    then show "\<exists>s'. clear_at x s = Inr s' \<and> s' = replicate k []"
      using assms by (auto simp: clear_at_def VECTOR_set_def list_update_same_conv simp del: replicate_Suc)
  qed
  then show ?thesis by simp
qed

text \<open>
  The first phase clears the lists and then fills \<^verbatim>\<open>visited_nodes\<close>; with no vertex
  there is no phase, and the vector is met when it is destroyed.
\<close>

lemma phase_reset_uninitialized:
  "phase_reset g ((search_init g)\<lparr>match_g := m\<rparr>) = Inl UNINITIALIZED"
  by (simp add: phase_reset_def search_init_def Let_def clear_all_empty
        igraph_vector_bool_fill_def)

lemma phases_none: "phases g False s = Some (Inr s)"
  by (subst phases.simps) simp

lemma phases_uninitialized:
  "phases g True ((search_init g)\<lparr>match_g := m\<rparr>) = Some (Inl UNINITIALIZED)"
  by (subst phases.simps) (simp add: phase_start_def phase_reset_uninitialized)

lemma search_init_visited_nodes: "visited_nodes ((search_init g)\<lparr>match_g := m\<rparr>) = None"
  by (simp add: search_init_def Let_def)

lemma unweighted_general_result:
  "igraph_i_maximum_matching_unweighted g out =
     Some (Inl (if vcount g = 0 \<and> matching_size out = None then OUT_OF_BOUNDS
                else UNINITIALIZED))"
proof (cases "vcount g = 0")
  case False
  then show ?thesis
    by (simp add: igraph_i_maximum_matching_unweighted_def phases_uninitialized)
next
  case True
  then show ?thesis
    by (cases "matching_size out")
      (simp_all add: igraph_i_maximum_matching_unweighted_def phases_none
         search_init_visited_nodes igraph_vector_bool_destroy_def)
qed

section \<open>The unweighted bipartite matcher returns a maximum matching\<close>

lemma finite_vtx: "finite {x. vtx g x}"
proof -
  have "{x. vtx g x} \<subseteq> {0..<int (vcount g)}" by (auto simp: vtx_def)
  then show ?thesis using finite_subset by blast
qed

lemma finite_matched_side: "finite (matched_side g types M \<sigma>)"
  by (rule finite_subset[OF _ finite_vtx[of g]]) (auto simp: matched_side_def)

lemma adj_sym: "adj g x y \<Longrightarrow> adj g y x"
  by (auto simp: adj_def has_edge_def)

lemma adj_vtx: "adj g x y \<Longrightarrow> vtx g x \<and> vtx g y"
  by (simp add: adj_def)

lemma adj_types:
  assumes "bipartition g types" "adj g x y"
  shows "types ! nat x \<noteq> types ! nat y"
  using assms
  by (auto simp: bipartition_def same_type_edge_def adj_def has_edge_def list_ex_iff)

lemma adj_irrefl: "bipartition g types \<Longrightarrow> \<not> adj g x x"
  using adj_types by blast

lemma neighbors_adj:
  assumes "igraph_ok g" "vtx g v"
  shows "\<exists>ns. igraph_neighbors g v = Inr ns \<and> set ns = {u. adj g v u}"
proof -
  have "igraph_neighbors g v = Inr (map int (sort (other_ends g (nat v))))"
    using assms(2) by (simp add: igraph_neighbors_def igraph_vcount_def vtx_def)
  moreover have "set (map int (sort (other_ends g (nat v)))) = {u. adj g v u}"
  proof (intro set_eqI iffI)
    fix u assume "u \<in> set (map int (sort (other_ends g (nat v))))"
    then obtain k where k: "u = int k" "k \<in> set (other_ends g (nat v))" by auto
    then have "k < vcount g" "has_edge g (nat v) k"
      using other_ends_range[OF assms(1)] set_other_ends by auto
    then show "u \<in> {u. adj g v u}" using k assms(2) by (simp add: adj_def vtx_def)
  next
    fix u assume "u \<in> {u. adj g v u}"
    then have "nat u \<in> set (other_ends g (nat v))" "0 \<le> u"
      by (auto simp: adj_def set_other_ends vtx_def)
    then have "int (nat u) \<in> int ` set (other_ends g (nat v))" by blast
    then show "u \<in> set (map int (sort (other_ends g (nat v))))" using \<open>0 \<le> u\<close> by simp
  qed
  ultimately show ?thesis by blast
qed

lemma VECTOR_vtx: "vtx g x \<Longrightarrow> vcount g \<le> length L \<Longrightarrow> VECTOR L x = Inr (L ! nat x)"
  by (simp add: VECTOR_def vtx_def)

lemma VECTOR_set_vtx:
  "vtx g x \<Longrightarrow> vcount g \<le> length L \<Longrightarrow> VECTOR_set L x y = Inr (L[nat x := y])"
  by (simp add: VECTOR_set_def vtx_def)

lemma VECTOR_len: "vtx g x \<Longrightarrow> length L = vcount g \<Longrightarrow> VECTOR L x = Inr (L ! nat x)"
  by (simp add: VECTOR_def vtx_def)

lemma VECTOR_set_len:
  "vtx g x \<Longrightarrow> length L = vcount g \<Longrightarrow> VECTOR_set L x y = Inr (L[nat x := y])"
  by (simp add: VECTOR_set_def vtx_def)

lemma VECTOR_index: "i < length L \<Longrightarrow> VECTOR L (int i) = Inr (L ! i)"
  by (simp add: VECTOR_def)

lemma VECTOR_set_index: "i < length L \<Longrightarrow> VECTOR_set L (int i) y = Inr (L[i := y])"
  by (simp add: VECTOR_set_def)

lemma nat_eq_vtx: "vtx g x \<Longrightarrow> vtx g y \<Longrightarrow> nat x = nat y \<longleftrightarrow> x = y"
  by (auto simp: vtx_def)

text \<open>Matching one more pair.\<close>

lemma match_pair:
  assumes bp: "bipartition g types" and mv: "matching_vector g M" and a: "adj g i k"
    and fi: "M ! nat i = - 1" and fk: "M ! nat k = - 1"
  shows "matching_vector g (M[nat k := i, nat i := k])"
    and "card (matched_side g types (M[nat k := i, nat i := k]) \<sigma>) =
         Suc (card (matched_side g types M \<sigma>))"
proof -
  let ?M = "M[nat k := i, nat i := k]"
  have vi: "vtx g i" and vk: "vtx g k" using a by (auto simp: adj_def)
  have ne: "i \<noteq> k" using adj_irrefl[OF bp] a by auto
  have len: "length M = vcount g" using mv by (simp add: matching_vector_def)
  have nth: "?M ! nat x = (if x = i then k else if x = k then i else M ! nat x)" if "vtx g x" for x
    using that vi vk ne len by (auto simp: nth_list_update vtx_def)
  show "matching_vector g ?M"
    unfolding matching_vector_def
  proof (intro conjI allI impI)
    show "length ?M = vcount g" using len by simp
  next
    fix x assume x: "vtx g x"
    show "?M ! nat x = - 1 \<or> adj g x (?M ! nat x) \<and> ?M ! nat (?M ! nat x) = x"
    proof (cases "x = i \<or> x = k")
      case True
      then show ?thesis using nth[OF vi] nth[OF vk] a adj_sym[OF a] ne by auto
    next
      case False
      then have eq: "?M ! nat x = M ! nat x" using nth[OF x] by simp
      show ?thesis
      proof (cases "M ! nat x = - 1")
        case True
        then show ?thesis using eq by simp
      next
        case nz: False
        then have p: "adj g x (M ! nat x)" "M ! nat (M ! nat x) = x"
          using mv x by (auto simp: matching_vector_def)
        have "0 \<le> x" using x by (simp add: vtx_def)
        then have "M ! nat x \<noteq> i" "M ! nat x \<noteq> k" using fi fk p(2) by auto
        moreover have "vtx g (M ! nat x)" using p by (simp add: adj_def)
        ultimately have "?M ! nat (M ! nat x) = M ! nat (M ! nat x)" using nth by simp
        then show ?thesis using eq p by simp
      qed
    qed
  qed
  have ty: "types ! nat i \<noteq> types ! nat k" using adj_types[OF bp a] .
  define z where "z = (if types ! nat i = \<sigma> then i else k)"
  have nm: "i \<noteq> - 1" "k \<noteq> - 1" using vi vk by (auto simp: vtx_def)
  have mem: "x \<in> matched_side g types ?M \<sigma> \<longleftrightarrow> x = z \<or> x \<in> matched_side g types M \<sigma>" for x
  proof (cases "vtx g x")
    case False
    then show ?thesis using vi vk by (auto simp: matched_side_def z_def)
  next
    case True
    consider "x = i" | "x = k" "x \<noteq> i" | "x \<noteq> i" "x \<noteq> k" by blast
    then show ?thesis
    proof cases
      case 1
      then show ?thesis using nth[OF True] True ty fi nm by (auto simp: matched_side_def z_def)
    next
      case 2
      then show ?thesis using nth[OF True] True ty fk nm by (auto simp: matched_side_def z_def)
    next
      case 3
      then show ?thesis using nth[OF True] True by (auto simp: matched_side_def z_def)
    qed
  qed
  then have "matched_side g types ?M \<sigma> = insert z (matched_side g types M \<sigma>)"
    by blast
  moreover have "z \<notin> matched_side g types M \<sigma>"
    unfolding matched_side_def z_def using fi fk by auto
  ultimately show "card (matched_side g types ?M \<sigma>) = Suc (card (matched_side g types M \<sigma>))"
    using finite_matched_side by simp
qed

lemma greedy_scan_ok:
  assumes "bipartition g types" "matching_vector g M" "vtx g i" "M ! nat i = - 1"
    and "\<forall>k\<in>set neis. adj g i k" and "\<forall>\<sigma>. int (card (matched_side g types M \<sigma>)) = num"
  shows "\<exists>s'. greedy_scan types i neis j (M, num) = Inr s' \<and> greedy_inv g types s'"
  using assms(5)
proof (induction neis arbitrary: j)
  case Nil
  then show ?case using assms by (simp add: greedy_inv_def)
next
  case (Cons k neis)
  then have a: "adj g i k" by simp
  have len: "vcount g \<le> length M" "vcount g \<le> length types"
    using assms by (auto simp: matching_vector_def bipartition_def)
  have vk: "vtx g k" using a by (simp add: adj_def)
  have rd: "VECTOR types k = Inr (types ! nat k)" "VECTOR types i = Inr (types ! nat i)"
    "VECTOR M k = Inr (M ! nat k)"
    using VECTOR_vtx vk assms(3) len by auto
  have ty: "types ! nat k \<noteq> types ! nat i" using adj_types[OF assms(1) a] by simp
  show ?case
  proof (cases "M ! nat k = - 1")
    case True
    have w1: "VECTOR_set M k i = Inr (M[nat k := i])"
      using VECTOR_set_vtx[OF vk len(1)] by simp
    have w2: "VECTOR_set (M[nat k := i]) i k = Inr (M[nat k := i, nat i := k])"
      using VECTOR_set_vtx[OF assms(3), of "M[nat k := i]"] len by simp
    have "greedy_inv g types (M[nat k := i, nat i := k], num + 1, j)"
      using match_pair[OF assms(1,2) a assms(4) True] assms(6)
      by (simp add: greedy_inv_def)
    then show ?thesis using rd ty True w1 w2 by simp
  next
    case False
    then show ?thesis using rd ty Cons by simp
  qed
qed

lemma greedy_vertex_ok:
  assumes "igraph_ok g" "bipartition g types" "greedy_inv g types s" "i < vcount g"
  shows "\<exists>s'. greedy_vertex g types i s = Inr s' \<and> greedy_inv g types s'"
proof -
  obtain M num j where s: "s = (M, num, j)" by (cases s) auto
  have mv: "matching_vector g M" and cnt: "\<forall>\<sigma>. int (card (matched_side g types M \<sigma>)) = num"
    using assms(3) s by (auto simp: greedy_inv_def)
  have vi: "vtx g (int i)" using assms(4) by (simp add: vtx_def)
  have len: "vcount g \<le> length M" "vcount g \<le> length types"
    using mv assms(2) by (auto simp: matching_vector_def bipartition_def)
  have rd: "VECTOR types (int i) = Inr (types ! i)" "VECTOR M (int i) = Inr (M ! i)"
    using VECTOR_vtx[OF vi] len by auto
  show ?thesis
  proof (cases "M ! i = - 1")
    case False
    then show ?thesis using rd s mv cnt by (simp add: greedy_vertex_def greedy_inv_def Let_def)
  next
    case True
    obtain ns where ns: "igraph_neighbors g (int i) = Inr ns" "set ns = {u. adj g (int i) u}"
      using neighbors_adj[OF assms(1) vi] by blast
    have "\<exists>s'. greedy_scan types (int i) ns 0 (M, num) = Inr s' \<and> greedy_inv g types s'"
      using greedy_scan_ok[OF assms(2) mv vi _ _ cnt, of ns 0] True ns(2) by simp
    then show ?thesis using rd s True ns(1) by (simp add: greedy_vertex_def Let_def)
  qed
qed

lemma matched_side_empty: "matched_side g types (replicate (vcount g) (- 1)) \<sigma> = {}"
  by (auto simp: matched_side_def vtx_def)

lemma greedy_ok:
  assumes "igraph_ok g" "bipartition g types"
  shows "\<exists>s'. for_each (greedy_vertex g types) [0..<vcount g] (replicate (vcount g) (- 1), 0, 0) = Inr s'
            \<and> greedy_inv g types s'"
proof (rule for_each_invariant)
  show "greedy_inv g types (replicate (vcount g) (- 1), 0, 0)"
    by (auto simp: greedy_inv_def matching_vector_def vtx_def matched_side_empty)
next
  fix x s assume "x \<in> set [0..<vcount g]" "greedy_inv g types s"
  then show "\<exists>s'. greedy_vertex g types x s = Inr s' \<and> greedy_inv g types s'"
    using greedy_vertex_ok[OF assms] by simp
qed

lemma nth_upd_vtx:
  "vtx g x \<Longrightarrow> vtx g w \<Longrightarrow> length L = vcount g \<Longrightarrow>
   L[nat w := c] ! nat x = (if x = w then c else L ! nat x)"
  by (auto simp: vtx_def nth_list_update)

lemma chain_values:
  assumes pos: "\<forall>x. vtx g x \<longrightarrow> 0 \<le> L ! nat x"
    and chain: "\<forall>x. vtx g x \<and> 0 < L ! nat x \<and> L ! nat x < int (vcount g) \<longrightarrow>
        (\<exists>y. vtx g y \<and> L ! nat y + 1 = L ! nat x)"
  shows "vtx g x \<Longrightarrow> L ! nat x = int k \<Longrightarrow> int k < int (vcount g) \<Longrightarrow> j \<le> k \<Longrightarrow>
         \<exists>y. vtx g y \<and> L ! nat y = int j"
proof (induction k arbitrary: x j)
  case 0
  then show ?case by auto
next
  case (Suc k)
  show ?case
  proof (cases "j = Suc k")
    case True
    then show ?thesis using Suc.prems by auto
  next
    case False
    then have j: "j \<le> k" using Suc.prems by simp
    obtain y where y: "vtx g y" "L ! nat y + 1 = L ! nat x"
      using chain Suc.prems by fastforce
    then have "L ! nat y = int k" using Suc.prems by simp
    moreover have "int k < int (vcount g)" using Suc.prems by simp
    ultimately show ?thesis using Suc.IH[OF y(1) _ _ j] by blast
  qed
qed

lemma chain_bound:
  assumes pos: "\<forall>x. vtx g x \<longrightarrow> 0 \<le> L ! nat x"
    and chain: "\<forall>x. vtx g x \<and> 0 < L ! nat x \<and> L ! nat x < int (vcount g) \<longrightarrow>
        (\<exists>y. vtx g y \<and> L ! nat y + 1 = L ! nat x)"
    and x: "vtx g x" "L ! nat x < int (vcount g)"
    and U: "U \<subseteq> unlabelled g L"
  shows "L ! nat x + int (card U) < int (vcount g)"
proof -
  define k where "k = nat (L ! nat x)"
  have k: "L ! nat x = int k" using pos x by (simp add: k_def)
  define S where "S = {y. vtx g y \<and> L ! nat y < int (vcount g)}"
  have fin: "finite S" unfolding S_def by (rule finite_subset[OF _ finite_vtx[of g]]) auto
  have finU: "finite U"
    by (rule finite_subset[OF _ finite_vtx[of g]]) (use U in \<open>auto simp: unlabelled_def\<close>)
  have "int ` {0..k} \<subseteq> (\<lambda>y. L ! nat y) ` S"
  proof
    fix v assume "v \<in> int ` {0..k}"
    then obtain j where j: "v = int j" "j \<le> k" by auto
    obtain y where "vtx g y" "L ! nat y = int j"
      using chain_values[OF pos chain x(1) k _ j(2)] x(2) k by auto
    moreover have "int j < int (vcount g)" using j k x(2) by simp
    ultimately show "v \<in> (\<lambda>y. L ! nat y) ` S" using j unfolding S_def by force
  qed
  then have "card (int ` {0..k}) \<le> card ((\<lambda>y. L ! nat y) ` S)"
    using fin by (intro card_mono) auto
  also have "\<dots> \<le> card S" using fin by (rule card_image_le)
  finally have c1: "Suc k \<le> card S" by (simp add: card_image)
  have "S \<inter> U = {}" unfolding S_def using U by (auto simp: unlabelled_def)
  moreover have "S \<union> U \<subseteq> {y. vtx g y}" unfolding S_def using U by (auto simp: unlabelled_def)
  ultimately have "card S + card U \<le> card {y. vtx g y}"
    using fin finU finite_vtx[of g] by (metis card_Un_disjoint card_mono)
  also have "{y. vtx g y} = {0..<int (vcount g)}" by (auto simp: vtx_def)
  finally have "card S + card U \<le> vcount g" by simp
  then show ?thesis using c1 k by linarith
qed

lemma unlabelled_update:
  assumes "length L = vcount g" "vtx g w" "c \<noteq> int (vcount g)"
  shows "unlabelled g (L[nat w := c]) = unlabelled g L - {w}"
  using assms by (auto simp: unlabelled_def nth_upd_vtx split: if_splits)

lemma finite_unlabelled: "finite (unlabelled g L)"
  by (rule finite_subset[OF _ finite_vtx[of g]]) (auto simp: unlabelled_def)

lemma side_vtx: "side g types \<sigma> x \<Longrightarrow> vtx g x"
  by (simp add: side_def)

lemma adj_side:
  "bipartition g types \<Longrightarrow> adj g x y \<Longrightarrow> side g types \<sigma> x \<Longrightarrow> side g types (\<not> \<sigma>) y"
  using adj_types[of g types x y] by (auto simp: side_def adj_def)

lemma adj_side':
  "bipartition g types \<Longrightarrow> adj g x y \<Longrightarrow> side g types (\<not> \<sigma>) x \<Longrightarrow> side g types \<sigma> y"
  using adj_types[of g types x y] by (auto simp: side_def adj_def)

lemma partner:
  assumes "matching_vector g M" "vtx g x" "M ! nat x \<noteq> - 1"
  shows "adj g x (M ! nat x)" "M ! nat (M ! nat x) = x" "vtx g (M ! nat x)"
  using assms by (auto simp: matching_vector_def adj_def)

text \<open>
  Labelling the unlabelled neighbour \<open>w\<close> of the queue head \<open>v\<close>, and its partner if it
  has one, keeps the invariant.
\<close>

lemma bfs_inv_label:
  assumes bp: "bipartition g types" and mv: "matching_vector g M"
    and inv: "bfs_inv g types \<sigma> M L (v # q)"
    and a: "adj g v w" and unl: "L ! nat w = int (vcount g)"
    and ps: "ps = (if M ! nat w = - 1 then [] else [M ! nat w])"
    and len: "length L' = vcount g"
    and descr: "\<forall>x. vtx g x \<longrightarrow> L' ! nat x =
        (if x = w then L ! nat v + 1 else if x \<in> set ps then L ! nat v + 2 else L ! nat x)"
    and c2: "ps \<noteq> [] \<longrightarrow> L ! nat v + 2 < int (vcount g)"
    and c1: "L ! nat v + 1 < int (vcount g)"
  shows "bfs_inv g types \<sigma> M L' (v # q @ ps)"
proof -
  let ?n = "int (vcount g)"
  note K = inv[unfolded bfs_inv_def]
  note rK0 = K[THEN conjunct1]
  note rK1 = K[THEN conjunct2, THEN conjunct1]
  note rK2 = K[THEN conjunct2, THEN conjunct2, THEN conjunct1]
  note rK3a = K[THEN conjunct2, THEN conjunct2, THEN conjunct2, THEN conjunct1]
  note rK3b = K[THEN conjunct2, THEN conjunct2, THEN conjunct2, THEN conjunct2, THEN conjunct1]
  note rK4 = K[THEN conjunct2, THEN conjunct2, THEN conjunct2, THEN conjunct2, THEN conjunct2, THEN conjunct1]
  note rK5 = K[THEN conjunct2, THEN conjunct2, THEN conjunct2, THEN conjunct2, THEN conjunct2, THEN conjunct2, THEN conjunct1]
  note rK6 = K[THEN conjunct2, THEN conjunct2, THEN conjunct2, THEN conjunct2, THEN conjunct2, THEN conjunct2, THEN conjunct2, THEN conjunct1]
  note rK7 = K[THEN conjunct2, THEN conjunct2, THEN conjunct2, THEN conjunct2, THEN conjunct2, THEN conjunct2, THEN conjunct2, THEN conjunct2, THEN conjunct1]
  note rK8 = K[THEN conjunct2, THEN conjunct2, THEN conjunct2, THEN conjunct2, THEN conjunct2, THEN conjunct2, THEN conjunct2, THEN conjunct2, THEN conjunct2, THEN conjunct1]
  note rK9 = K[THEN conjunct2, THEN conjunct2, THEN conjunct2, THEN conjunct2, THEN conjunct2, THEN conjunct2, THEN conjunct2, THEN conjunct2, THEN conjunct2, THEN conjunct2, THEN conjunct1]
  note rK10 = K[THEN conjunct2, THEN conjunct2, THEN conjunct2, THEN conjunct2, THEN conjunct2, THEN conjunct2, THEN conjunct2, THEN conjunct2, THEN conjunct2, THEN conjunct2, THEN conjunct2]
  have K0: "length L = vcount g" using rK0 .
  have K1: "\<And>x. vtx g x \<Longrightarrow> 0 \<le> L ! nat x \<and> L ! nat x \<le> ?n" using rK1 by blast
  have K2: "\<And>u. u \<in> set (v # q) \<Longrightarrow> side g types (\<not> \<sigma>) u \<and> L ! nat u < ?n" using rK2 by blast
  have K3a: "sorted (map (\<lambda>x. L ! nat x) (v # q))" using rK3a .
  have K3b: "\<And>x y. x \<in> set (v # q) \<Longrightarrow> y \<in> set (v # q) \<Longrightarrow> L ! nat x \<le> L ! nat y + 2"
    using rK3b by blast
  have K4: "\<And>b a. side g types (\<not> \<sigma>) b \<Longrightarrow> L ! nat b < ?n \<Longrightarrow> b \<notin> set (v # q) \<Longrightarrow> adj g b a \<Longrightarrow>
        L ! nat a < ?n \<and> L ! nat a \<le> L ! nat b + 1" using rK4 by blast
  have K5: "\<And>a. side g types \<sigma> a \<Longrightarrow> L ! nat a < ?n \<Longrightarrow> M ! nat a \<noteq> - 1 \<Longrightarrow>
        L ! nat (M ! nat a) = L ! nat a + 1 \<and> L ! nat (M ! nat a) < ?n" using rK5 by blast
  have K6: "\<And>b. side g types (\<not> \<sigma>) b \<Longrightarrow> L ! nat b < ?n \<Longrightarrow> M ! nat b \<noteq> - 1 \<Longrightarrow>
        L ! nat (M ! nat b) < ?n" using rK6 by blast
  have K7: "\<And>x. vtx g x \<Longrightarrow> 0 < L ! nat x \<Longrightarrow> L ! nat x < ?n \<Longrightarrow>
        \<exists>y. vtx g y \<and> L ! nat y + 1 = L ! nat x" using rK7 by blast
  have K8: "\<And>x. vtx g x \<Longrightarrow> L ! nat x < ?n \<Longrightarrow> (even (L ! nat x) \<longleftrightarrow> types ! nat x \<noteq> \<sigma>)"
    using rK8 by blast
  have K9: "\<And>b. side g types (\<not> \<sigma>) b \<Longrightarrow> M ! nat b = - 1 \<Longrightarrow> L ! nat b = 0" using rK9 by blast
  have K10: "\<And>a x. side g types \<sigma> a \<Longrightarrow> L ! nat a < ?n \<Longrightarrow> x \<in> set (v # q) \<Longrightarrow>
        L ! nat a \<le> L ! nat x + 1" using rK10 by blast
  have vB: "side g types (\<not> \<sigma>) v" and vl: "L ! nat v < ?n" using K2[of v] by auto
  have vv: "vtx g v" using vB by (rule side_vtx)
  have wA: "side g types \<sigma> w" using adj_side'[OF bp a vB] .
  have vw: "vtx g w" using wA by (rule side_vtx)
  have v0: "0 \<le> L ! nat v" using K1[OF vv] by simp
  have head: "\<And>x. x \<in> set (v # q) \<Longrightarrow> L ! nat v \<le> L ! nat x" using K3a by auto
  text \<open>the partner of \<open>w\<close>\<close>
  have mt: "side g types (\<not> \<sigma>) t \<and> M ! nat t = w \<and> M ! nat w = t \<and> L ! nat t = ?n \<and> t \<noteq> w
             \<and> adj g w t \<and> L ! nat v + 2 < ?n"
    if "t \<in> set ps" for t
  proof -
    have t: "M ! nat w \<noteq> - 1" "t = M ! nat w" using that ps by (auto split: if_splits)
    have p: "adj g w t" "M ! nat t = w" "vtx g t" using partner[OF mv vw t(1)] t(2) by auto
    have tB: "side g types (\<not> \<sigma>) t" using adj_side[OF bp p(1) wA] .
    have "\<not> L ! nat t < ?n"
    proof
      assume "L ! nat t < ?n"
      then have "L ! nat (M ! nat t) < ?n" using K6[OF tB] p(2) vw by (auto simp: vtx_def)
      then show False using p(2) unl by simp
    qed
    then have "L ! nat t = ?n" using K1[OF p(3)] by simp
    moreover have "t \<noteq> w" using tB wA by (auto simp: side_def)
    moreover have "L ! nat v + 2 < ?n" using c2 that by auto
    ultimately show ?thesis using tB p t by simp
  qed
  have d: "L' ! nat x =
        (if x = w then L ! nat v + 1 else if x \<in> set ps then L ! nat v + 2 else L ! nat x)"
    if "vtx g x" for x
    using descr that by blast
  have c2': "L ! nat v + 2 < ?n" if "x \<in> set ps" for x
    using c2 that by (cases ps) simp_all
  have new: "L' ! nat x = L ! nat x" if "vtx g x" "L ! nat x < ?n" for x
  proof -
    have "x \<noteq> w" using that unl by auto
    moreover have "x \<notin> set ps" using mt[of x] that(2) by auto
    ultimately show ?thesis using d[OF that(1)] by simp
  qed
  have neww: "L' ! nat w = L ! nat v + 1" using d[OF vw] by simp
  have newt: "L' ! nat t = L ! nat v + 2" if "t \<in> set ps" for t
  proof -
    have "t \<noteq> w" "vtx g t" using mt[OF that] side_vtx by blast+
    then show ?thesis using d[of t] that by simp
  qed
  have other: "L' ! nat x = L ! nat x" if "vtx g x" "x \<noteq> w" "x \<notin> set ps" for x
    using d[OF that(1)] that by simp
  have lab': "L' ! nat x < ?n \<longleftrightarrow> L ! nat x < ?n \<or> x = w \<or> x \<in> set ps" if "vtx g x" for x
  proof (cases "x = w")
    case True
    then show ?thesis using neww c1 by simp
  next
    case False
    show ?thesis
    proof (cases "x \<in> set ps")
      case True
      then show ?thesis using newt[OF True] c2'[OF True] by simp
    next
      case False
      then show ?thesis using other[OF that \<open>x \<noteq> w\<close> False] \<open>x \<noteq> w\<close> by simp
    qed
  qed
  have inq: "L' ! nat u = L ! nat u" if "u \<in> set (v # q)" for u
    using new K2[OF that] side_vtx by blast
  show ?thesis
    unfolding bfs_inv_def
  proof (intro conjI)
    show "length L' = vcount g" by (rule len)
  next
    show "\<forall>x. vtx g x \<longrightarrow> 0 \<le> L' ! nat x \<and> L' ! nat x \<le> ?n"
    proof (intro allI impI)
      fix x assume x: "vtx g x"
      consider "x = w" | "x \<in> set ps" | "x \<noteq> w" "x \<notin> set ps" by blast
      then show "0 \<le> L' ! nat x \<and> L' ! nat x \<le> ?n"
      proof cases
        case 1
        then show ?thesis using neww v0 c1 by simp
      next
        case 2
        then show ?thesis using newt[OF 2] c2'[OF 2] v0 by simp
      next
        case 3
        then show ?thesis using other[OF x] K1[OF x] by simp
      qed
    qed
  next
    show "\<forall>u\<in>set (v # q @ ps). side g types (\<not> \<sigma>) u \<and> L' ! nat u < ?n"
    proof
      fix u assume "u \<in> set (v # q @ ps)"
      then consider "u \<in> set (v # q)" | "u \<in> set ps" by auto
      then show "side g types (\<not> \<sigma>) u \<and> L' ! nat u < ?n"
      proof cases
        case 1
        then show ?thesis using K2[OF 1] inq[OF 1] by simp
      next
        case 2
        then show ?thesis using mt[OF 2] newt[OF 2] by simp
      qed
    qed
  next
    have eq: "map (\<lambda>x. L' ! nat x) (v # q) = map (\<lambda>x. L ! nat x) (v # q)"
      using inq by (intro map_cong) auto
    have "sorted (map (\<lambda>x. L' ! nat x) (v # q) @ map (\<lambda>x. L' ! nat x) ps)"
      unfolding eq sorted_append
    proof (intro conjI ballI)
      show "sorted (map (\<lambda>x. L ! nat x) (v # q))" by (rule K3a)
      show "sorted (map (\<lambda>x. L' ! nat x) ps)" using ps by auto
    next
      fix x y assume "x \<in> set (map (\<lambda>x. L ! nat x) (v # q))" "y \<in> set (map (\<lambda>x. L' ! nat x) ps)"
      then obtain u t where u: "u \<in> set (v # q)" "x = L ! nat u" and t: "t \<in> set ps" "y = L' ! nat t"
        by auto
      show "x \<le> y" using K3b[OF u(1), of v] u(2) t(2) newt[OF t(1)] by simp
    qed
    then show "sorted (map (\<lambda>x. L' ! nat x) (v # q @ ps))" by simp
  next
    show "\<forall>x\<in>set (v # q @ ps). \<forall>y\<in>set (v # q @ ps). L' ! nat x \<le> L' ! nat y + 2"
    proof (intro ballI)
      fix x y assume "x \<in> set (v # q @ ps)" "y \<in> set (v # q @ ps)"
      then consider "x \<in> set (v # q)" "y \<in> set (v # q)" | "x \<in> set (v # q)" "y \<in> set ps"
        | "x \<in> set ps" "y \<in> set (v # q)" | "x \<in> set ps" "y \<in> set ps" by auto
      then show "L' ! nat x \<le> L' ! nat y + 2"
      proof cases
        case 1
        then show ?thesis using K3b inq by simp
      next
        case 2
        then show ?thesis using K3b[OF 2(1), of v] inq[OF 2(1)] newt[OF 2(2)] by simp
      next
        case 3
        then show ?thesis using head[OF 3(2)] inq[OF 3(2)] newt[OF 3(1)] by simp
      next
        case 4
        then show ?thesis using newt by simp
      qed
    qed
  next
    show "\<forall>b a. side g types (\<not> \<sigma>) b \<and> L' ! nat b < ?n \<and> b \<notin> set (v # q @ ps) \<and> adj g b a \<longrightarrow>
        L' ! nat a < ?n \<and> L' ! nat a \<le> L' ! nat b + 1"
    proof (intro allI impI)
      fix b a assume h: "side g types (\<not> \<sigma>) b \<and> L' ! nat b < ?n \<and> b \<notin> set (v # q @ ps) \<and> adj g b a"
      then have vb: "vtx g b" by (auto dest: side_vtx)
      have "b \<noteq> w" using h wA by (auto simp: side_def)
      then have lb: "L ! nat b < ?n" "L' ! nat b = L ! nat b"
        using h lab'[OF vb] other[OF vb] by auto
      have "L ! nat a < ?n \<and> L ! nat a \<le> L ! nat b + 1" using K4[of b a] h lb by auto
      moreover have "vtx g a" using h by (auto simp: adj_def)
      ultimately show "L' ! nat a < ?n \<and> L' ! nat a \<le> L' ! nat b + 1"
        using new lb by simp
    qed
  next
    show "\<forall>a. side g types \<sigma> a \<and> L' ! nat a < ?n \<and> M ! nat a \<noteq> - 1 \<longrightarrow>
        L' ! nat (M ! nat a) = L' ! nat a + 1 \<and> L' ! nat (M ! nat a) < ?n"
    proof (intro allI impI)
      fix a assume h: "side g types \<sigma> a \<and> L' ! nat a < ?n \<and> M ! nat a \<noteq> - 1"
      then have va: "vtx g a" by (auto dest: side_vtx)
      show "L' ! nat (M ! nat a) = L' ! nat a + 1 \<and> L' ! nat (M ! nat a) < ?n"
      proof (cases "a = w")
        case True
        then have "M ! nat w \<in> set ps" using h ps by simp
        then show ?thesis using newt[of "M ! nat w"] mt[of "M ! nat w"] neww True by simp
      next
        case False
        have "a \<notin> set ps" using mt h by (auto simp: side_def)
        then have la: "L ! nat a < ?n" "L' ! nat a = L ! nat a"
          using h lab'[OF va] other[OF va] False by auto
        have "L ! nat (M ! nat a) = L ! nat a + 1 \<and> L ! nat (M ! nat a) < ?n"
          using K5[of a] h la by simp
        moreover have "vtx g (M ! nat a)" using partner[OF mv va] h by simp
        ultimately show ?thesis using new la by simp
      qed
    qed
  next
    show "\<forall>b. side g types (\<not> \<sigma>) b \<and> L' ! nat b < ?n \<and> M ! nat b \<noteq> - 1 \<longrightarrow>
        L' ! nat (M ! nat b) < ?n"
    proof (intro allI impI)
      fix b assume h: "side g types (\<not> \<sigma>) b \<and> L' ! nat b < ?n \<and> M ! nat b \<noteq> - 1"
      then have vb: "vtx g b" by (auto dest: side_vtx)
      have bw: "b \<noteq> w" using h wA by (auto simp: side_def)
      show "L' ! nat (M ! nat b) < ?n"
      proof (cases "b \<in> set ps")
        case True
        then show ?thesis using mt[OF True] neww c1 by simp
      next
        case False
        then have "L ! nat b < ?n" using h lab'[OF vb] bw by auto
        then have "L ! nat (M ! nat b) < ?n" using K6[of b] h by simp
        moreover have "vtx g (M ! nat b)" using partner[OF mv vb] h by simp
        ultimately show ?thesis using new by simp
      qed
    qed
  next
    show "\<forall>x. vtx g x \<and> 0 < L' ! nat x \<and> L' ! nat x < ?n \<longrightarrow>
        (\<exists>y. vtx g y \<and> L' ! nat y + 1 = L' ! nat x)"
    proof (intro allI impI)
      fix x assume h: "vtx g x \<and> 0 < L' ! nat x \<and> L' ! nat x < ?n"
      consider "x = w" | "x \<in> set ps" | "x \<noteq> w" "x \<notin> set ps" by blast
      then show "\<exists>y. vtx g y \<and> L' ! nat y + 1 = L' ! nat x"
      proof cases
        case 1
        then show ?thesis using neww inq[of v] vv by auto
      next
        case 2
        then show ?thesis using newt[OF 2] neww vw by auto
      next
        case 3
        then have lx: "L' ! nat x = L ! nat x" "L ! nat x < ?n" using other h by auto
        then obtain y where y: "vtx g y" "L ! nat y + 1 = L ! nat x" using K7[of x] h by auto
        then have "L' ! nat y = L ! nat y" using new lx by simp
        then show ?thesis using y lx by auto
      qed
    qed
  next
    show "\<forall>x. vtx g x \<and> L' ! nat x < ?n \<longrightarrow> (even (L' ! nat x) \<longleftrightarrow> types ! nat x \<noteq> \<sigma>)"
    proof (intro allI impI)
      fix x assume h: "vtx g x \<and> L' ! nat x < ?n"
      have ev: "even (L ! nat v)" using K8[OF vv vl] vB by (simp add: side_def)
      consider "x = w" | "x \<in> set ps" | "x \<noteq> w" "x \<notin> set ps" by blast
      then show "even (L' ! nat x) \<longleftrightarrow> types ! nat x \<noteq> \<sigma>"
      proof cases
        case 1
        then show ?thesis using neww ev wA by (simp add: side_def)
      next
        case 2
        then show ?thesis using newt[OF 2] ev mt[OF 2] by (simp add: side_def)
      next
        case 3
        then show ?thesis using other[of x] lab'[of x] h K8[of x] by auto
      qed
    qed
  next
    show "\<forall>b. side g types (\<not> \<sigma>) b \<and> M ! nat b = - 1 \<longrightarrow> L' ! nat b = 0"
    proof (intro allI impI)
      fix b assume h: "side g types (\<not> \<sigma>) b \<and> M ! nat b = - 1"
      have "b \<noteq> w" using h wA by (auto simp: side_def)
      moreover have "b \<notin> set ps" using mt h vw by (auto simp: vtx_def)
      ultimately show "L' ! nat b = 0" using other[of b] K9[of b] h side_vtx by auto
    qed
  next
    show "\<forall>a x. side g types \<sigma> a \<and> L' ! nat a < ?n \<and> x \<in> set (v # q @ ps) \<longrightarrow>
        L' ! nat a \<le> L' ! nat x + 1"
    proof (intro allI impI)
      fix a x assume h: "side g types \<sigma> a \<and> L' ! nat a < ?n \<and> x \<in> set (v # q @ ps)"
      then have va: "vtx g a" by (auto dest: side_vtx)
      have aps: "a \<notin> set ps" using mt h by (auto simp: side_def)
      have la: "L' ! nat a \<le> L ! nat v + 1"
      proof (cases "a = w")
        case True
        then show ?thesis using neww by simp
      next
        case False
        then have "L ! nat a < ?n" "L' ! nat a = L ! nat a"
          using lab'[OF va] other[OF va] aps h by auto
        then show ?thesis using K10[of a v] h by simp
      qed
      consider "x \<in> set (v # q)" | "x \<in> set ps" using h by auto
      then show "L' ! nat a \<le> L' ! nat x + 1"
      proof cases
        case 1
        then show ?thesis using la head[OF 1] inq[OF 1] by simp
      next
        case 2
        then show ?thesis using la newt[OF 2] by simp
      qed
    qed
  qed
qed

lemma partner_unlabelled:
  assumes bp: "bipartition g types" and mv: "matching_vector g M"
    and inv: "bfs_inv g types \<sigma> M L Q"
    and wA: "side g types \<sigma> w" and unl: "L ! nat w = int (vcount g)" and m: "M ! nat w \<noteq> - 1"
  shows "side g types (\<not> \<sigma>) (M ! nat w)" "M ! nat (M ! nat w) = w"
    "L ! nat (M ! nat w) = int (vcount g)" "M ! nat w \<noteq> w" "adj g w (M ! nat w)"
proof -
  let ?t = "M ! nat w"
  note K = inv[unfolded bfs_inv_def]
  note rK1 = K[THEN conjunct2, THEN conjunct1]
  note rK6 = K[THEN conjunct2, THEN conjunct2, THEN conjunct2, THEN conjunct2, THEN conjunct2,
      THEN conjunct2, THEN conjunct2, THEN conjunct1]
  have vw: "vtx g w" using wA by (rule side_vtx)
  have p: "adj g w ?t" "M ! nat ?t = w" "vtx g ?t" using partner[OF mv vw m] by auto
  show tB: "side g types (\<not> \<sigma>) ?t" using adj_side[OF bp p(1) wA] .
  show "M ! nat ?t = w" by (rule p(2))
  show "adj g w ?t" by (rule p(1))
  have "\<not> L ! nat ?t < int (vcount g)"
  proof
    assume "L ! nat ?t < int (vcount g)"
    moreover have "M ! nat ?t \<noteq> - 1" using p(2) vw by (auto simp: vtx_def)
    ultimately have "L ! nat (M ! nat ?t) < int (vcount g)" using rK6 tB by blast
    then show False using p(2) unl by simp
  qed
  moreover have "L ! nat ?t \<le> int (vcount g)" using rK1 p(3) by blast
  ultimately show "L ! nat ?t = int (vcount g)" by simp
  show "?t \<noteq> w" using tB wA by (auto simp: side_def)
qed

lemma visit_step:
  assumes bp: "bipartition g types" and mv: "matching_vector g M"
    and inv: "bfs_inv g types \<sigma> M L (v # q)" and a: "adj g v w"
  shows "\<exists>L' q'. relabel_visit (igraph_vcount g) M v w (L, q) = Inr (L', q') \<and>
           bfs_inv g types \<sigma> M L' (v # q') \<and> L' ! nat w < int (vcount g) \<and>
           (\<forall>x. vtx g x \<and> L ! nat x < int (vcount g) \<longrightarrow> L' ! nat x = L ! nat x) \<and>
           2 * card (unlabelled g L') + length q' \<le> 2 * card (unlabelled g L) + length q \<and>
           (valid_labels g types \<sigma> M old \<and> above g types \<sigma> old L \<longrightarrow> above g types \<sigma> old L')"
proof -
  let ?n = "int (vcount g)"
  note K = inv[unfolded bfs_inv_def]
  note K0 = K[THEN conjunct1]
  note rK1 = K[THEN conjunct2, THEN conjunct1]
  note rK2 = K[THEN conjunct2, THEN conjunct2, THEN conjunct1]
  note rK7 = K[THEN conjunct2, THEN conjunct2, THEN conjunct2, THEN conjunct2, THEN conjunct2,
      THEN conjunct2, THEN conjunct2, THEN conjunct2, THEN conjunct1]
  have K1: "\<And>x. vtx g x \<Longrightarrow> 0 \<le> L ! nat x \<and> L ! nat x \<le> ?n" using rK1 by blast
  have pos: "\<forall>x. vtx g x \<longrightarrow> 0 \<le> L ! nat x" using rK1 by blast
  have vB: "side g types (\<not> \<sigma>) v" and vl: "L ! nat v < ?n" using rK2 by auto
  have vv: "vtx g v" using vB by (rule side_vtx)
  have wA: "side g types \<sigma> w" using adj_side'[OF bp a vB] .
  have vw: "vtx g w" using wA by (rule side_vtx)
  have lenM: "length M = vcount g" using mv by (simp add: matching_vector_def)
  have rdw: "VECTOR L w = Inr (L ! nat w)" by (rule VECTOR_len[OF vw K0])
  show ?thesis
  proof (cases "L ! nat w = ?n")
    case False
    then have "relabel_visit (igraph_vcount g) M v w (L, q) = Inr (L, q)"
      using rdw by (simp add: relabel_visit_def igraph_vcount_def)
    moreover have "L ! nat w < ?n" using False K1[OF vw] by simp
    ultimately show ?thesis using inv by auto
  next
    case unl: True
    have wU: "{w} \<subseteq> unlabelled g L" using unl vw by (simp add: unlabelled_def)
    have c1: "L ! nat v + 1 < ?n" using chain_bound[OF pos rK7 vv vl wU] by simp
    define L1 where "L1 = L[nat w := L ! nat v + 1]"
    have len1: "length L1 = vcount g" using K0 by (simp add: L1_def)
    have rdv: "VECTOR L v = Inr (L ! nat v)" by (rule VECTOR_len[OF vv K0])
    have wr1: "VECTOR_set L w (L ! nat v + 1) = Inr L1"
      unfolding L1_def by (rule VECTOR_set_len[OF vw K0])
    have rdm: "VECTOR M w = Inr (M ! nat w)" by (rule VECTOR_len[OF vw lenM])
    have n1: "L1 ! nat x = (if x = w then L ! nat v + 1 else L ! nat x)" if "vtx g x" for x
      unfolding L1_def using nth_upd_vtx[OF that vw K0] .
    have u1: "unlabelled g L1 = unlabelled g L - {w}"
      unfolding L1_def using unlabelled_update[OF K0 vw] c1 by simp
    have wu: "w \<in> unlabelled g L" using unl vw by (simp add: unlabelled_def)
    show ?thesis
    proof (cases "M ! nat w = - 1")
      case True
      have res: "relabel_visit (igraph_vcount g) M v w (L, q) = Inr (L1, q)"
        using rdw unl rdv wr1 rdm True by (simp add: relabel_visit_def igraph_vcount_def)
      have "bfs_inv g types \<sigma> M L1 (v # q @ [])"
        by (rule bfs_inv_label[OF bp mv inv a unl _ len1 _ _ c1, where ps = "[]"])
           (use True n1 in auto)
      then have i1: "bfs_inv g types \<sigma> M L1 (v # q)" by simp
      have i2: "L1 ! nat w < ?n" using n1[OF vw] c1 by simp
      have i3: "\<forall>x. vtx g x \<and> L ! nat x < ?n \<longrightarrow> L1 ! nat x = L ! nat x"
        using n1 unl by auto
      have "card (unlabelled g L1) < card (unlabelled g L)"
        unfolding u1 using wu finite_unlabelled by (intro psubset_card_mono) auto
      then have i4: "2 * card (unlabelled g L1) + length q \<le> 2 * card (unlabelled g L) + length q"
        by simp
      have i5: "above g types \<sigma> old L1" if "above g types \<sigma> old L"
        unfolding above_def
      proof (intro allI impI)
        fix b assume b: "side g types (\<not> \<sigma>) b"
        then have "b \<noteq> w" using wA by (auto simp: side_def)
        then have "L1 ! nat b = L ! nat b" using n1[of b] b side_vtx by auto
        then show "min (old ! nat b) ?n \<le> L1 ! nat b" using that b by (simp add: above_def)
      qed
      show ?thesis using res i1 i2 i3 i4 i5 by blast
    next
      case m: False
      let ?t = "M ! nat w"
      note pt = partner_unlabelled[OF bp mv inv wA unl m]
      have vt: "vtx g ?t" using pt(1) by (rule side_vtx)
      have tU: "{w, ?t} \<subseteq> unlabelled g L" using unl vw pt(3) vt by (simp add: unlabelled_def)
      have "card {w, ?t} = 2" using pt(4) by simp
      then have c2: "L ! nat v + 2 < ?n" using chain_bound[OF pos rK7 vv vl tU] by simp
      define L2 where "L2 = L1[nat ?t := L ! nat v + 1 + 1]"
      have len2: "length L2 = vcount g" using len1 by (simp add: L2_def)
      have l1t: "L1 ! nat ?t = ?n" using n1[OF vt] pt(3,4) by simp
      have rdt: "VECTOR L1 ?t = Inr ?n" using VECTOR_len[OF vt len1] l1t by simp
      have rdw1: "VECTOR L1 w = Inr (L ! nat v + 1)" using VECTOR_len[OF vw len1] n1[OF vw] by simp
      have wr2: "VECTOR_set L1 ?t (L ! nat v + 1 + 1) = Inr L2"
        unfolding L2_def by (rule VECTOR_set_len[OF vt len1])
      have res: "relabel_visit (igraph_vcount g) M v w (L, q) = Inr (L2, q @ [?t])"
        using rdw unl rdv wr1 rdm m rdt rdw1 wr2 by (simp add: relabel_visit_def igraph_vcount_def)
      have n2: "L2 ! nat x = (if x = w then L ! nat v + 1 else if x \<in> set [?t] then L ! nat v + 2
                               else L ! nat x)" if "vtx g x" for x
        unfolding L2_def using nth_upd_vtx[OF that vt len1] n1[OF that] pt(4) by auto
      have i1: "bfs_inv g types \<sigma> M L2 (v # q @ [?t])"
        by (rule bfs_inv_label[OF bp mv inv a unl _ len2 _ _ c1, where ps = "[?t]"])
           (use m n2 c2 in auto)
      have i2: "L2 ! nat w < ?n" using n2[OF vw] c1 by simp
      have i3: "\<forall>x. vtx g x \<and> L ! nat x < ?n \<longrightarrow> L2 ! nat x = L ! nat x"
        using n2 unl pt(3) by auto
      have u2: "unlabelled g L2 = unlabelled g L - {w} - {?t}"
        unfolding L2_def using unlabelled_update[OF len1 vt] c2 u1 by simp
      have "card (unlabelled g L - {w} - {?t}) < card (unlabelled g L - {w})"
        using tU pt(4) finite_unlabelled[of g L] by (intro psubset_card_mono) auto
      moreover have "card (unlabelled g L - {w}) < card (unlabelled g L)"
        using wu finite_unlabelled by (intro psubset_card_mono) auto
      ultimately have i4: "2 * card (unlabelled g L2) + length (q @ [?t])
          \<le> 2 * card (unlabelled g L) + length q"
        unfolding u2 by simp
      have i5: "above g types \<sigma> old L2" if h: "valid_labels g types \<sigma> M old" "above g types \<sigma> old L"
        unfolding above_def
      proof (intro allI impI)
        fix b assume b: "side g types (\<not> \<sigma>) b"
        then have bw: "b \<noteq> w" and vb: "vtx g b" using wA by (auto simp: side_def)
        show "min (old ! nat b) ?n \<le> L2 ! nat b"
        proof (cases "b = ?t")
          case True
          have "old ! nat ?t \<le> old ! nat v + 2"
            using h(1) wA m adj_sym[OF a] unfolding valid_labels_def by blast
          moreover have "min (old ! nat v) ?n \<le> L ! nat v" using h(2) vB by (simp add: above_def)
          ultimately show ?thesis using n2[OF vt] pt(4) True by (simp add: min_def split: if_splits)
        next
          case False
          then have "L2 ! nat b = L ! nat b" using n2[OF vb] bw by simp
          then show ?thesis using h(2) b by (simp add: above_def)
        qed
      qed
      show ?thesis using res i1 i2 i3 i4 i5 by blast
    qed
  qed
qed

lemma visit_loop:
  assumes bp: "bipartition g types" and mv: "matching_vector g M"
  shows "bfs_inv g types \<sigma> M L (v # q) \<Longrightarrow> \<forall>w\<in>set ws. adj g v w \<Longrightarrow>
     \<exists>L' q'. for_each (relabel_visit (igraph_vcount g) M v) ws (L, q) = Inr (L', q') \<and>
           bfs_inv g types \<sigma> M L' (v # q') \<and> (\<forall>w\<in>set ws. L' ! nat w < int (vcount g)) \<and>
           (\<forall>x. vtx g x \<and> L ! nat x < int (vcount g) \<longrightarrow> L' ! nat x = L ! nat x) \<and>
           2 * card (unlabelled g L') + length q' \<le> 2 * card (unlabelled g L) + length q \<and>
           (valid_labels g types \<sigma> M old \<and> above g types \<sigma> old L \<longrightarrow> above g types \<sigma> old L')"
proof (induction ws arbitrary: L q)
  case Nil
  then show ?case by simp
next
  case (Cons w ws)
  then have a: "adj g v w" by simp
  obtain L1 q1 where s1: "relabel_visit (igraph_vcount g) M v w (L, q) = Inr (L1, q1)"
    "bfs_inv g types \<sigma> M L1 (v # q1)" "L1 ! nat w < int (vcount g)"
    "\<forall>x. vtx g x \<and> L ! nat x < int (vcount g) \<longrightarrow> L1 ! nat x = L ! nat x"
    "2 * card (unlabelled g L1) + length q1 \<le> 2 * card (unlabelled g L) + length q"
    "valid_labels g types \<sigma> M old \<and> above g types \<sigma> old L \<longrightarrow> above g types \<sigma> old L1"
    using visit_step[OF bp mv Cons.prems(1) a, of old] by blast
  have rest: "\<forall>w\<in>set ws. adj g v w" using Cons.prems(2) by simp
  obtain L2 q2 where s2: "for_each (relabel_visit (igraph_vcount g) M v) ws (L1, q1) = Inr (L2, q2)"
    "bfs_inv g types \<sigma> M L2 (v # q2)" "\<forall>w\<in>set ws. L2 ! nat w < int (vcount g)"
    "\<forall>x. vtx g x \<and> L1 ! nat x < int (vcount g) \<longrightarrow> L2 ! nat x = L1 ! nat x"
    "2 * card (unlabelled g L2) + length q2 \<le> 2 * card (unlabelled g L1) + length q1"
    "valid_labels g types \<sigma> M old \<and> above g types \<sigma> old L1 \<longrightarrow> above g types \<sigma> old L2"
    using Cons.IH[OF s1(2) rest] by blast
  have vw: "vtx g w" using a by (simp add: adj_def)
  have r1: "for_each (relabel_visit (igraph_vcount g) M v) (w # ws) (L, q) = Inr (L2, q2)"
    using s1(1) s2(1) by simp
  have r3: "\<forall>w'\<in>set (w # ws). L2 ! nat w' < int (vcount g)"
    using s2(3) s2(4) s1(3) vw by auto
  have r4: "\<forall>x. vtx g x \<and> L ! nat x < int (vcount g) \<longrightarrow> L2 ! nat x = L ! nat x"
    using s1(4) s2(4) by auto
  have r5: "2 * card (unlabelled g L2) + length q2 \<le> 2 * card (unlabelled g L) + length q"
    using s1(5) s2(5) by linarith
  have r6: "valid_labels g types \<sigma> M old \<and> above g types \<sigma> old L \<longrightarrow> above g types \<sigma> old L2"
    using s1(6) s2(6) by blast
  show ?case using r1 s2(2) r3 r4 r5 r6 by blast
qed

lemma bfs_inv_pop:
  assumes bp: "bipartition g types"
    and inv: "bfs_inv g types \<sigma> M L (v # q)"
    and nb: "\<forall>a. adj g v a \<longrightarrow> L ! nat a < int (vcount g)"
  shows "bfs_inv g types \<sigma> M L q"
proof -
  let ?n = "int (vcount g)"
  note K = inv[unfolded bfs_inv_def]
  note rK0 = K[THEN conjunct1]
  note rK1 = K[THEN conjunct2, THEN conjunct1]
  note rK2 = K[THEN conjunct2, THEN conjunct2, THEN conjunct1]
  note rK3a = K[THEN conjunct2, THEN conjunct2, THEN conjunct2, THEN conjunct1]
  note rK3b = K[THEN conjunct2, THEN conjunct2, THEN conjunct2, THEN conjunct2, THEN conjunct1]
  note rK4 = K[THEN conjunct2, THEN conjunct2, THEN conjunct2, THEN conjunct2, THEN conjunct2, THEN conjunct1]
  note rK5 = K[THEN conjunct2, THEN conjunct2, THEN conjunct2, THEN conjunct2, THEN conjunct2, THEN conjunct2, THEN conjunct1]
  note rK6 = K[THEN conjunct2, THEN conjunct2, THEN conjunct2, THEN conjunct2, THEN conjunct2, THEN conjunct2, THEN conjunct2, THEN conjunct1]
  note rK7 = K[THEN conjunct2, THEN conjunct2, THEN conjunct2, THEN conjunct2, THEN conjunct2, THEN conjunct2, THEN conjunct2, THEN conjunct2, THEN conjunct1]
  note rK8 = K[THEN conjunct2, THEN conjunct2, THEN conjunct2, THEN conjunct2, THEN conjunct2, THEN conjunct2, THEN conjunct2, THEN conjunct2, THEN conjunct2, THEN conjunct1]
  note rK9 = K[THEN conjunct2, THEN conjunct2, THEN conjunct2, THEN conjunct2, THEN conjunct2, THEN conjunct2, THEN conjunct2, THEN conjunct2, THEN conjunct2, THEN conjunct2, THEN conjunct1]
  note rK10 = K[THEN conjunct2, THEN conjunct2, THEN conjunct2, THEN conjunct2, THEN conjunct2, THEN conjunct2, THEN conjunct2, THEN conjunct2, THEN conjunct2, THEN conjunct2, THEN conjunct2]
  have vB: "side g types (\<not> \<sigma>) v" using rK2 by simp
  have K4: "\<And>b a. side g types (\<not> \<sigma>) b \<Longrightarrow> L ! nat b < ?n \<Longrightarrow> b \<notin> set (v # q) \<Longrightarrow> adj g b a \<Longrightarrow>
        L ! nat a < ?n \<and> L ! nat a \<le> L ! nat b + 1" using rK4 by blast
  have K10: "\<And>a x. side g types \<sigma> a \<Longrightarrow> L ! nat a < ?n \<Longrightarrow> x \<in> set (v # q) \<Longrightarrow>
        L ! nat a \<le> L ! nat x + 1" using rK10 by blast
  show ?thesis
    unfolding bfs_inv_def
  proof (intro conjI)
    show "length L = vcount g" by (rule rK0)
    show "\<forall>x. vtx g x \<longrightarrow> 0 \<le> L ! nat x \<and> L ! nat x \<le> ?n" by (rule rK1)
    show "\<forall>v\<in>set q. side g types (\<not> \<sigma>) v \<and> L ! nat v < ?n" using rK2 by simp
    show "sorted (map (\<lambda>x. L ! nat x) q)" using rK3a by simp
    show "\<forall>x\<in>set q. \<forall>y\<in>set q. L ! nat x \<le> L ! nat y + 2" using rK3b by simp
    show "\<forall>b a. side g types (\<not> \<sigma>) b \<and> L ! nat b < ?n \<and> b \<notin> set q \<and> adj g b a \<longrightarrow>
        L ! nat a < ?n \<and> L ! nat a \<le> L ! nat b + 1"
    proof (intro allI impI)
      fix b a assume h: "side g types (\<not> \<sigma>) b \<and> L ! nat b < ?n \<and> b \<notin> set q \<and> adj g b a"
      show "L ! nat a < ?n \<and> L ! nat a \<le> L ! nat b + 1"
      proof (cases "b = v")
        case True
        then have la: "L ! nat a < ?n" using nb h by blast
        have "side g types \<sigma> a" using adj_side'[OF bp _ vB] h True by blast
        then have "L ! nat a \<le> L ! nat v + 1" using K10[of a v] la by simp
        then show ?thesis using la True by simp
      next
        case False
        then show ?thesis using K4[of b a] h by simp
      qed
    qed
    show "\<forall>a. side g types \<sigma> a \<and> L ! nat a < ?n \<and> M ! nat a \<noteq> - 1 \<longrightarrow>
        L ! nat (M ! nat a) = L ! nat a + 1 \<and> L ! nat (M ! nat a) < ?n" by (rule rK5)
    show "\<forall>b. side g types (\<not> \<sigma>) b \<and> L ! nat b < ?n \<and> M ! nat b \<noteq> - 1 \<longrightarrow>
        L ! nat (M ! nat b) < ?n" by (rule rK6)
    show "\<forall>x. vtx g x \<and> 0 < L ! nat x \<and> L ! nat x < ?n \<longrightarrow>
        (\<exists>y. vtx g y \<and> L ! nat y + 1 = L ! nat x)" by (rule rK7)
    show "\<forall>x. vtx g x \<and> L ! nat x < ?n \<longrightarrow> (even (L ! nat x) \<longleftrightarrow> types ! nat x \<noteq> \<sigma>)"
      by (rule rK8)
    show "\<forall>b. side g types (\<not> \<sigma>) b \<and> M ! nat b = - 1 \<longrightarrow> L ! nat b = 0" by (rule rK9)
    show "\<forall>a x. side g types \<sigma> a \<and> L ! nat a < ?n \<and> x \<in> set q \<longrightarrow> L ! nat a \<le> L ! nat x + 1"
      using K10 by simp
  qed
qed

lemma relabel_bfs_ok:
  assumes ok: "igraph_ok g" and bp: "bipartition g types" and mv: "matching_vector g M"
  shows "bfs_inv g types \<sigma> M L q \<Longrightarrow>
     \<exists>L'. relabel_bfs g M (L, q) = Some (Inr L') \<and> bfs_inv g types \<sigma> M L' [] \<and>
          (valid_labels g types \<sigma> M old \<and> above g types \<sigma> old L \<longrightarrow> above g types \<sigma> old L')"
proof (induction "2 * card (unlabelled g L) + length q" arbitrary: L q rule: less_induct)
  case less
  show ?case
  proof (cases q)
    case Nil
    then show ?thesis using less.prems by (subst relabel_bfs.simps) simp
  next
    case (Cons v rest)
    have inv: "bfs_inv g types \<sigma> M L (v # rest)" using less.prems Cons by simp
    have vv: "vtx g v" using inv unfolding bfs_inv_def by (auto dest: side_vtx)
    obtain ns where ns: "igraph_neighbors g v = Inr ns" "set ns = {u. adj g v u}"
      using neighbors_adj[OF ok vv] by blast
    have "\<forall>w\<in>set ns. adj g v w" using ns(2) by simp
    from visit_loop[OF bp mv inv this, of old]
    obtain L1 q1 where s1:
      "for_each (relabel_visit (igraph_vcount g) M v) ns (L, rest) = Inr (L1, q1)"
      "bfs_inv g types \<sigma> M L1 (v # q1)" "\<forall>w\<in>set ns. L1 ! nat w < int (vcount g)"
      "2 * card (unlabelled g L1) + length q1 \<le> 2 * card (unlabelled g L) + length rest"
      "valid_labels g types \<sigma> M old \<and> above g types \<sigma> old L \<longrightarrow> above g types \<sigma> old L1"
      by blast
    have "bfs_inv g types \<sigma> M L1 q1"
      using bfs_inv_pop[OF bp s1(2)] s1(3) ns(2) by simp
    moreover have "2 * card (unlabelled g L1) + length q1 < 2 * card (unlabelled g L) + length q"
      using s1(4) Cons by simp
    ultimately obtain L' where r: "relabel_bfs g M (L1, q1) = Some (Inr L')"
      "bfs_inv g types \<sigma> M L' []"
      "valid_labels g types \<sigma> M old \<and> above g types \<sigma> old L1 \<longrightarrow> above g types \<sigma> old L'"
      using less.hyps[of L1 q1] by blast
    have "relabel_bfs g M (L, q) = Some (Inr L')"
      using Cons ns(1) s1(1) r(1) by (subst relabel_bfs.simps) simp
    then show ?thesis using r(2,3) s1(5) by blast
  qed
qed

lemma relabel_root_step:
  assumes bp: "bipartition g types" and mv: "matching_vector g M"
    and j: "j < vcount g" and inv: "root_inv g types \<sigma> M j s"
  shows "\<exists>s'. relabel_root types M \<sigma> j s = Inr s' \<and> root_inv g types \<sigma> M (Suc j) s'"
proof -
  obtain L q where s: "s = (L, q)" by (cases s) auto
  have len: "length L = vcount g"
    and lab: "\<And>x. vtx g x \<Longrightarrow> L ! nat x =
           (if x < int j \<and> side g types (\<not> \<sigma>) x \<and> M ! nat x = - 1 then 0 else int (vcount g))"
    and qs: "\<And>v. v \<in> set q \<longleftrightarrow> (v < int j \<and> side g types (\<not> \<sigma>) v \<and> M ! nat v = - 1)"
    using inv s by (auto simp: root_inv_def)
  have vj: "vtx g (int j)" using j by (simp add: vtx_def)
  have lenT: "vcount g \<le> length types" using bp by (simp add: bipartition_def)
  have lenM: "length M = vcount g" using mv by (simp add: matching_vector_def)
  have rdt: "VECTOR types (int j) = Inr (types ! j)" using VECTOR_vtx[OF vj lenT] by simp
  have rdm: "VECTOR M (int j) = Inr (M ! j)" using VECTOR_len[OF vj lenM] by simp
  have wr: "VECTOR_set L (int j) 0 = Inr (L[j := 0])" using VECTOR_set_len[OF vj len] by simp
  have sj: "side g types (\<not> \<sigma>) (int j) \<longleftrightarrow> types ! j \<noteq> \<sigma>" using vj by (auto simp: side_def)
  have lt: "x < int (Suc j) \<longleftrightarrow> x < int j \<or> x = int j" for x by auto
  show ?thesis
  proof (cases "types ! j \<noteq> \<sigma> \<and> M ! j = - 1")
    case True
    have res: "relabel_root types M \<sigma> j s = Inr (L[j := 0], q @ [int j])"
      using s rdt rdm wr True by (simp add: relabel_root_def)
    have "root_inv g types \<sigma> M (Suc j) (L[j := 0], q @ [int j])"
      unfolding root_inv_def prod.case
    proof (intro conjI allI impI)
      show "length (L[j := 0]) = vcount g" using len by simp
    next
      fix x assume x: "vtx g x"
      have "L[j := 0] ! nat x = (if x = int j then 0 else L ! nat x)"
        using nth_upd_vtx[OF x vj len, of 0] by simp
      then show "L[j := 0] ! nat x =
           (if x < int (Suc j) \<and> side g types (\<not> \<sigma>) x \<and> M ! nat x = - 1 then 0 else int (vcount g))"
        using lab[OF x] True sj unfolding lt by auto
    next
      fix v
      show "v \<in> set (q @ [int j]) \<longleftrightarrow> (v < int (Suc j) \<and> side g types (\<not> \<sigma>) v \<and> M ! nat v = - 1)"
        using qs[of v] True sj unfolding lt by auto
    qed
    then show ?thesis using res by blast
  next
    case False
    then have res: "relabel_root types M \<sigma> j s = Inr (L, q)"
      using s rdt rdm by (auto simp: relabel_root_def)
    have "root_inv g types \<sigma> M (Suc j) (L, q)"
      unfolding root_inv_def prod.case
    proof (intro conjI allI impI)
      show "length L = vcount g" by (rule len)
    next
      fix x assume x: "vtx g x"
      show "L ! nat x =
           (if x < int (Suc j) \<and> side g types (\<not> \<sigma>) x \<and> M ! nat x = - 1 then 0 else int (vcount g))"
        using lab[OF x] False sj unfolding lt by auto
    next
      fix v
      show "v \<in> set q \<longleftrightarrow> (v < int (Suc j) \<and> side g types (\<not> \<sigma>) v \<and> M ! nat v = - 1)"
        using qs[of v] False sj unfolding lt by auto
    qed
    then show ?thesis using res by blast
  qed
qed

lemma sorted_map_const: "\<forall>x\<in>set xs. f x = c \<Longrightarrow> sorted (map f xs)"
  by (induction xs) auto

lemma roots_bfs_inv:
  assumes bp: "bipartition g types" and mv: "matching_vector g M"
    and inv: "root_inv g types \<sigma> M (vcount g) (L, q)"
  shows "bfs_inv g types \<sigma> M L q"
    and "valid_labels g types \<sigma> M old \<longrightarrow> above g types \<sigma> old L"
proof -
  let ?n = "int (vcount g)"
  have len: "length L = vcount g"
    and lab: "\<And>x. vtx g x \<Longrightarrow> L ! nat x =
           (if side g types (\<not> \<sigma>) x \<and> M ! nat x = - 1 then 0 else ?n)"
    and qs: "\<And>v. v \<in> set q \<longleftrightarrow> (side g types (\<not> \<sigma>) v \<and> M ! nat v = - 1)"
    using inv by (auto simp: root_inv_def vtx_def side_def)
  have pos: "0 < ?n" if "vtx g x" for x using that by (auto simp: vtx_def)
  have labelled: "side g types (\<not> \<sigma>) x \<and> M ! nat x = - 1 \<and> L ! nat x = 0"
    if "vtx g x" "L ! nat x < ?n" for x
    using lab[OF that(1)] that(2) by (auto split: if_splits)
  have inq: "L ! nat v = 0" if "v \<in> set q" for v
    using qs[of v] that lab[of v] side_vtx by auto
  show "bfs_inv g types \<sigma> M L q"
    unfolding bfs_inv_def
  proof (intro conjI)
    show "length L = vcount g" by (rule len)
    show "\<forall>x. vtx g x \<longrightarrow> 0 \<le> L ! nat x \<and> L ! nat x \<le> ?n" using lab by auto
    show "\<forall>v\<in>set q. side g types (\<not> \<sigma>) v \<and> L ! nat v < ?n"
      using qs inq pos side_vtx by fastforce
    show "sorted (map (\<lambda>x. L ! nat x) q)" using inq by (intro sorted_map_const[where c = 0]) simp
    show "\<forall>x\<in>set q. \<forall>y\<in>set q. L ! nat x \<le> L ! nat y + 2" using inq by simp
    show "\<forall>b a. side g types (\<not> \<sigma>) b \<and> L ! nat b < ?n \<and> b \<notin> set q \<and> adj g b a \<longrightarrow>
        L ! nat a < ?n \<and> L ! nat a \<le> L ! nat b + 1"
      using labelled qs side_vtx by blast
    show "\<forall>a. side g types \<sigma> a \<and> L ! nat a < ?n \<and> M ! nat a \<noteq> - 1 \<longrightarrow>
        L ! nat (M ! nat a) = L ! nat a + 1 \<and> L ! nat (M ! nat a) < ?n"
      using labelled side_vtx by blast
    show "\<forall>b. side g types (\<not> \<sigma>) b \<and> L ! nat b < ?n \<and> M ! nat b \<noteq> - 1 \<longrightarrow>
        L ! nat (M ! nat b) < ?n"
      using labelled side_vtx by blast
    show "\<forall>x. vtx g x \<and> 0 < L ! nat x \<and> L ! nat x < ?n \<longrightarrow>
        (\<exists>y. vtx g y \<and> L ! nat y + 1 = L ! nat x)"
      using labelled by fastforce
    show "\<forall>x. vtx g x \<and> L ! nat x < ?n \<longrightarrow> (even (L ! nat x) \<longleftrightarrow> types ! nat x \<noteq> \<sigma>)"
    proof (intro allI impI)
      fix x assume "vtx g x \<and> L ! nat x < ?n"
      then have "side g types (\<not> \<sigma>) x \<and> L ! nat x = 0" using labelled by blast
      then show "even (L ! nat x) \<longleftrightarrow> types ! nat x \<noteq> \<sigma>" by (auto simp: side_def)
    qed
    show "\<forall>b. side g types (\<not> \<sigma>) b \<and> M ! nat b = - 1 \<longrightarrow> L ! nat b = 0"
      using lab side_vtx by auto
    show "\<forall>a x. side g types \<sigma> a \<and> L ! nat a < ?n \<and> x \<in> set q \<longrightarrow> L ! nat a \<le> L ! nat x + 1"
    proof (intro allI impI)
      fix a x assume h: "side g types \<sigma> a \<and> L ! nat a < ?n \<and> x \<in> set q"
      then have "side g types (\<not> \<sigma>) a" using labelled[of a] side_vtx by blast
      then show "L ! nat a \<le> L ! nat x + 1" using h by (auto simp: side_def)
    qed
  qed
  show "valid_labels g types \<sigma> M old \<longrightarrow> above g types \<sigma> old L"
  proof
    assume v: "valid_labels g types \<sigma> M old"
    show "above g types \<sigma> old L"
      unfolding above_def
    proof (intro allI impI)
      fix b assume b: "side g types (\<not> \<sigma>) b"
      show "min (old ! nat b) ?n \<le> L ! nat b"
      proof (cases "M ! nat b = - 1")
        case True
        then have "old ! nat b = 0" using v b unfolding valid_labels_def by blast
        then show ?thesis using lab[of b] b side_vtx True by auto
      next
        case False
        then show ?thesis using lab[of b] b side_vtx by auto
      qed
    qed
  qed
qed

lemma bfs_inv_valid:
  assumes bp: "bipartition g types" and mv: "matching_vector g M"
    and inv: "bfs_inv g types \<sigma> M L []"
  shows "valid_labels g types \<sigma> M L" and "\<forall>x. vtx g x \<longrightarrow> L ! nat x \<le> int (vcount g)"
proof -
  let ?n = "int (vcount g)"
  note K = inv[unfolded bfs_inv_def]
  note rK0 = K[THEN conjunct1]
  note rK1 = K[THEN conjunct2, THEN conjunct1]
  note rK4 = K[THEN conjunct2, THEN conjunct2, THEN conjunct2, THEN conjunct2, THEN conjunct2, THEN conjunct1]
  note rK5 = K[THEN conjunct2, THEN conjunct2, THEN conjunct2, THEN conjunct2, THEN conjunct2, THEN conjunct2, THEN conjunct1]
  note rK8 = K[THEN conjunct2, THEN conjunct2, THEN conjunct2, THEN conjunct2, THEN conjunct2, THEN conjunct2, THEN conjunct2, THEN conjunct2, THEN conjunct2, THEN conjunct1]
  note rK9 = K[THEN conjunct2, THEN conjunct2, THEN conjunct2, THEN conjunct2, THEN conjunct2, THEN conjunct2, THEN conjunct2, THEN conjunct2, THEN conjunct2, THEN conjunct2, THEN conjunct1]
  have K1: "\<And>x. vtx g x \<Longrightarrow> 0 \<le> L ! nat x \<and> L ! nat x \<le> ?n" using rK1 by blast
  have K4: "\<And>b a. side g types (\<not> \<sigma>) b \<Longrightarrow> L ! nat b < ?n \<Longrightarrow> adj g b a \<Longrightarrow>
        L ! nat a < ?n \<and> L ! nat a \<le> L ! nat b + 1" using rK4 by simp
  have K5: "\<And>a. side g types \<sigma> a \<Longrightarrow> L ! nat a < ?n \<Longrightarrow> M ! nat a \<noteq> - 1 \<Longrightarrow>
        L ! nat (M ! nat a) = L ! nat a + 1 \<and> L ! nat (M ! nat a) < ?n" using rK5 by blast
  have K8: "\<And>x. vtx g x \<Longrightarrow> L ! nat x < ?n \<Longrightarrow> (even (L ! nat x) \<longleftrightarrow> types ! nat x \<noteq> \<sigma>)"
    using rK8 by blast
  show "\<forall>x. vtx g x \<longrightarrow> L ! nat x \<le> ?n" using K1 by blast
  show "valid_labels g types \<sigma> M L"
    unfolding valid_labels_def
  proof (intro conjI allI impI)
    show "length L = vcount g" by (rule rK0)
  next
    fix b assume b: "side g types (\<not> \<sigma>) b"
    then show "0 \<le> L ! nat b" using K1 side_vtx by blast
    show "even (L ! nat b) \<or> ?n \<le> L ! nat b"
      using K8[of b] b by (cases "L ! nat b < ?n") (auto simp: side_def)
  next
    fix b assume "side g types (\<not> \<sigma>) b \<and> M ! nat b = - 1"
    then show "L ! nat b = 0" using rK9 by blast
  next
    fix a b' assume h: "side g types \<sigma> a \<and> M ! nat a \<noteq> - 1 \<and> adj g a b'"
    then have va: "vtx g a" by (auto dest: side_vtx)
    have vp: "vtx g (M ! nat a)" using partner[OF mv va] h by simp
    have b'B: "side g types (\<not> \<sigma>) b'" using adj_side[OF bp] h by blast
    show "L ! nat (M ! nat a) \<le> L ! nat b' + 2"
    proof (cases "L ! nat b' < ?n")
      case True
      then have "L ! nat a < ?n \<and> L ! nat a \<le> L ! nat b' + 1"
        using K4[OF b'B True adj_sym] h by blast
      then show ?thesis using K5[of a] h by auto
    next
      case False
      then show ?thesis using K1[OF vp] by simp
    qed
  qed
qed

lemma relabel_ok:
  assumes ok: "igraph_ok g" and bp: "bipartition g types" and mv: "matching_vector g M"
    and len: "length labels0 = vcount g"
  shows "\<exists>L'. igraph_i_maximum_bipartite_matching_unweighted_relabel g types labels0 M \<sigma> = Some (Inr L')
          \<and> valid_labels g types \<sigma> M L' \<and> (\<forall>x. vtx g x \<longrightarrow> L' ! nat x \<le> int (vcount g))
          \<and> (valid_labels g types \<sigma> M old \<longrightarrow> above g types \<sigma> old L')"
proof -
  let ?n = "int (vcount g)"
  have m: "map (\<lambda>_. igraph_vcount g) labels0 = replicate (vcount g) ?n"
    using len by (simp add: map_replicate_const igraph_vcount_def)
  have "\<exists>s'. for_each (relabel_root types M \<sigma>) [0..<vcount g] (replicate (vcount g) ?n, []) = Inr s'
          \<and> root_inv g types \<sigma> M (vcount g) s'"
  proof (rule for_each_upt_invariant[where I = "root_inv g types \<sigma> M"])
    show "root_inv g types \<sigma> M 0 (replicate (vcount g) ?n, [])"
      by (auto simp: root_inv_def vtx_def side_def)
  next
    fix j s assume "j < vcount g" "root_inv g types \<sigma> M j s"
    then show "\<exists>s'. relabel_root types M \<sigma> j s = Inr s' \<and> root_inv g types \<sigma> M (Suc j) s'"
      using relabel_root_step[OF bp mv] by blast
  qed
  then obtain L q where r:
    "for_each (relabel_root types M \<sigma>) [0..<vcount g] (replicate (vcount g) ?n, []) = Inr (L, q)"
    "root_inv g types \<sigma> M (vcount g) (L, q)" by force
  note ri = roots_bfs_inv(1)[OF bp mv r(2)] roots_bfs_inv(2)[OF bp mv r(2), where old = old]
  obtain L' where b: "relabel_bfs g M (L, q) = Some (Inr L')" "bfs_inv g types \<sigma> M L' []"
    "valid_labels g types \<sigma> M old \<and> above g types \<sigma> old L \<longrightarrow> above g types \<sigma> old L'"
    using relabel_bfs_ok[OF ok bp mv ri(1), of old] by blast
  have "igraph_i_maximum_bipartite_matching_unweighted_relabel g types labels0 M \<sigma> = Some (Inr L')"
    using m r(1) b(1) by (simp add: igraph_i_maximum_bipartite_matching_unweighted_relabel_def)
  then show ?thesis using bfs_inv_valid[OF bp mv b(2)] b(3) ri(2) by blast
qed

lemma unmatch_pair:
  assumes bp: "bipartition g types" and mv: "matching_vector g M" and vu: "vtx g u"
    and mu: "M ! nat u = w" and nz: "w \<noteq> - 1"
  shows "matching_vector g (M[nat u := - 1, nat w := - 1])"
    and "Suc (card (matched_side g types (M[nat u := - 1, nat w := - 1]) \<tau>)) =
         card (matched_side g types M \<tau>)"
    and "\<And>x. vtx g x \<Longrightarrow>
           M[nat u := - 1, nat w := - 1] ! nat x = (if x = u \<or> x = w then - 1 else M ! nat x)"
proof -
  let ?M = "M[nat u := - 1, nat w := - 1]"
  have p: "adj g u w" "M ! nat w = u" "vtx g w" using partner[OF mv vu] mu nz by auto
  have ne: "u \<noteq> w" using adj_irrefl[OF bp] p(1) by auto
  have len: "length M = vcount g" using mv by (simp add: matching_vector_def)
  show nth: "?M ! nat x = (if x = u \<or> x = w then - 1 else M ! nat x)" if "vtx g x" for x
    using that vu p(3) ne len by (auto simp: nth_list_update vtx_def)
  show "matching_vector g ?M"
    unfolding matching_vector_def
  proof (intro conjI allI impI)
    show "length ?M = vcount g" using len by simp
  next
    fix x assume x: "vtx g x"
    show "?M ! nat x = - 1 \<or> adj g x (?M ! nat x) \<and> ?M ! nat (?M ! nat x) = x"
    proof (cases "x = u \<or> x = w \<or> M ! nat x = - 1")
      case True
      then show ?thesis using nth[OF x] by auto
    next
      case False
      then have eq: "?M ! nat x = M ! nat x" using nth[OF x] by simp
      have q: "adj g x (M ! nat x)" "M ! nat (M ! nat x) = x" "vtx g (M ! nat x)"
        using partner[OF mv x] False by auto
      have "M ! nat x \<noteq> u" "M ! nat x \<noteq> w" using q(2) False mu p(2) by auto
      then have "?M ! nat (M ! nat x) = M ! nat (M ! nat x)" using nth[OF q(3)] by simp
      then show ?thesis using eq q by simp
    qed
  qed
  have ty: "types ! nat u \<noteq> types ! nat w" using adj_types[OF bp p(1)] .
  define z where "z = (if types ! nat u = \<tau> then u else w)"
  have nm: "u \<noteq> - 1" using vu by (auto simp: vtx_def)
  have mem: "x \<in> matched_side g types ?M \<tau> \<longleftrightarrow> x \<noteq> z \<and> x \<in> matched_side g types M \<tau>" for x
  proof (cases "vtx g x")
    case False
    then show ?thesis by (auto simp: matched_side_def)
  next
    case True
    consider "x = u" | "x = w" "x \<noteq> u" | "x \<noteq> u" "x \<noteq> w" by blast
    then show ?thesis
    proof cases
      case 1
      then show ?thesis using nth[OF True] True ty mu nz by (auto simp: matched_side_def z_def)
    next
      case 2
      then show ?thesis using nth[OF True] True ty p(2) nm by (auto simp: matched_side_def z_def)
    next
      case 3
      then show ?thesis using nth[OF True] True by (auto simp: matched_side_def z_def)
    qed
  qed
  then have eq: "matched_side g types ?M \<tau> = matched_side g types M \<tau> - {z}" by blast
  have zin: "z \<in> matched_side g types M \<tau>"
    unfolding matched_side_def z_def using mu nz p(2) p(3) vu nm ty by auto
  show "Suc (card (matched_side g types ?M \<tau>)) = card (matched_side g types M \<tau>)"
    unfolding eq by (rule card_Suc_Diff1[OF finite_matched_side zin])
qed

text \<open>The scan for the neighbour with the smallest label.\<close>

lemma min_label_loop:
  assumes len: "length L = vcount g" and xs: "\<forall>x\<in>set xs. vtx g x"
  shows "\<exists>u lu c. for_each (min_label L) xs (u0, l0, c0) = Inr (u, lu, c) \<and> lu \<le> l0 \<and>
           (\<forall>x\<in>set xs. lu \<le> L ! nat x) \<and>
           ((u = u0 \<and> lu = l0) \<or> (u \<in> set xs \<and> lu = L ! nat u))"
  using xs
proof (induction xs arbitrary: u0 l0 c0)
  case Nil
  then show ?case by simp
next
  case (Cons x xs)
  have vx: "vtx g x" using Cons.prems by simp
  have rd: "VECTOR L x = Inr (L ! nat x)" by (rule VECTOR_len[OF vx len])
  have rest: "\<forall>x\<in>set xs. vtx g x" using Cons.prems by simp
  show ?case
  proof (cases "L ! nat x < l0")
    case True
    then have st: "min_label L x (u0, l0, c0) = Inr (x, L ! nat x, c0 + 1)"
      using rd by (simp add: min_label_def)
    from Cons.IH[OF rest, of x "L ! nat x" "c0 + 1"] obtain u lu c where
      r: "for_each (min_label L) xs (x, L ! nat x, c0 + 1) = Inr (u, lu, c)" "lu \<le> L ! nat x"
         "\<forall>y\<in>set xs. lu \<le> L ! nat y" "(u = x \<and> lu = L ! nat x) \<or> (u \<in> set xs \<and> lu = L ! nat u)"
      by blast
    have "for_each (min_label L) (x # xs) (u0, l0, c0) = Inr (u, lu, c)" using st r(1) by simp
    moreover have "lu \<le> l0" using r(2) True by simp
    moreover have "\<forall>y\<in>set (x # xs). lu \<le> L ! nat y" using r(2,3) by simp
    moreover have "u \<in> set (x # xs) \<and> lu = L ! nat u" using r(4) by auto
    ultimately show ?thesis by blast
  next
    case False
    then have st: "min_label L x (u0, l0, c0) = Inr (u0, l0, c0)"
      using rd by (simp add: min_label_def)
    from Cons.IH[OF rest, of u0 l0 c0] obtain u lu c where
      r: "for_each (min_label L) xs (u0, l0, c0) = Inr (u, lu, c)" "lu \<le> l0"
         "\<forall>y\<in>set xs. lu \<le> L ! nat y" "(u = u0 \<and> lu = l0) \<or> (u \<in> set xs \<and> lu = L ! nat u)"
      by blast
    have "for_each (min_label L) (x # xs) (u0, l0, c0) = Inr (u, lu, c)" using st r(1) by simp
    moreover have "\<forall>y\<in>set (x # xs). lu \<le> L ! nat y" using r(2,3) False by simp
    moreover have "(u = u0 \<and> lu = l0) \<or> (u \<in> set (x # xs) \<and> lu = L ! nat u)" using r(4) by auto
    ultimately show ?thesis using r(2) by blast
  qed
qed

lemma finite_side: "finite {b. side g types \<tau> b}"
  by (rule finite_subset[OF _ finite_vtx[of g]]) (auto simp: side_def)

lemma card_side: "card {b. side g types \<tau> b} \<le> vcount g"
proof -
  have "{b. side g types \<tau> b} \<subseteq> int ` {0..<vcount g}"
  proof
    fix b assume "b \<in> {b. side g types \<tau> b}"
    then have "b = int (nat b)" "nat b \<in> {0..<vcount g}" by (auto simp: side_def vtx_def)
    then show "b \<in> int ` {0..<vcount g}" by blast
  qed
  then have "card {b. side g types \<tau> b} \<le> card (int ` {0..<vcount g})"
    by (intro card_mono) auto
  also have "\<dots> \<le> vcount g" using card_image_le[of "{0..<vcount g}" int] by simp
  finally show ?thesis .
qed

lemma potential_bound: "potential g types \<sigma> L \<le> vcount g * vcount g"
proof -
  have "potential g types \<sigma> L \<le> (\<Sum>b\<in>{b. side g types (\<not> \<sigma>) b}. vcount g)"
    unfolding potential_def by (rule sum_mono) auto
  also have "\<dots> = card {b. side g types (\<not> \<sigma>) b} * vcount g" by simp
  also have "\<dots> \<le> vcount g * vcount g" using card_side[of g types "\<not> \<sigma>"] by simp
  finally show ?thesis .
qed

lemma potential_mono:
  assumes "above g types \<sigma> old L"
  shows "potential g types \<sigma> old \<le> potential g types \<sigma> L"
  unfolding potential_def
proof (rule sum_mono)
  fix b assume "b \<in> {b. side g types (\<not> \<sigma>) b}"
  then have "min (old ! nat b) (int (vcount g)) \<le> L ! nat b"
    using assms by (simp add: above_def)
  then have "min (old ! nat b) (int (vcount g)) \<le> min (L ! nat b) (int (vcount g))"
    by simp
  then show "nat (min (old ! nat b) (int (vcount g))) \<le> nat (min (L ! nat b) (int (vcount g)))"
    by (rule nat_mono)
qed

lemma potential_push:
  assumes u: "side g types (\<not> \<sigma>) u" and lu: "0 \<le> L ! nat u" "L ! nat u < int (vcount g)"
    and u': "L ! nat u < L' ! nat u"
    and oth: "\<And>b. side g types (\<not> \<sigma>) b \<Longrightarrow> b \<noteq> u \<Longrightarrow> L' ! nat b = L ! nat b"
  shows "potential g types \<sigma> L < potential g types \<sigma> L'"
  unfolding potential_def
proof (rule sum_strict_mono_ex1)
  show "finite {b. side g types (\<not> \<sigma>) b}" by (rule finite_side)
  show "\<forall>b\<in>{b. side g types (\<not> \<sigma>) b}.
      nat (min (L ! nat b) (int (vcount g))) \<le> nat (min (L' ! nat b) (int (vcount g)))"
  proof
    fix b assume b: "b \<in> {b. side g types (\<not> \<sigma>) b}"
    show "nat (min (L ! nat b) (int (vcount g))) \<le> nat (min (L' ! nat b) (int (vcount g)))"
    proof (cases "b = u")
      case True
      have "min (L ! nat u) (int (vcount g)) \<le> min (L' ! nat u) (int (vcount g))"
        using u' by simp
      then show ?thesis unfolding True by (rule nat_mono)
    next
      case False
      then show ?thesis using oth b by simp
    qed
  qed
  have "nat (min (L ! nat u) (int (vcount g))) < nat (min (L' ! nat u) (int (vcount g)))"
    using lu u' by (simp add: min_def split: if_splits)
  then show "\<exists>a\<in>{b. side g types (\<not> \<sigma>) b}.
      nat (min (L ! nat a) (int (vcount g))) < nat (min (L' ! nat a) (int (vcount g)))"
    using u by blast
qed

lemma push_ok:
  assumes ok: "igraph_ok g" and bp: "bipartition g types"
    and inv: "pr_inv g types \<sigma> M L (v # rest) num"
  shows "\<exists>neis u lu c s'. igraph_neighbors g v = Inr neis \<and>
     for_each (min_label L) neis (- 1, 2 * igraph_vcount g, lc) = Inr (u, lu, c) \<and>
     push (igraph_vcount g) v u lu
       \<lparr>match = M, labels = L, queue = rest, num_matched = num, label_changed = c\<rparr> = Inr s' \<and>
     pr_inv g types \<sigma> (match s') (labels s') (queue s') (num_matched s') \<and>
     (potential g types \<sigma> L < potential g types \<sigma> (labels s') \<or>
      (labels s' = L \<and> length (queue s') = length rest))"
proof -
  let ?n = "int (vcount g)"
  note I = inv[unfolded pr_inv_def]
  note mv = I[THEN conjunct1]
  note vl = I[THEN conjunct2, THEN conjunct1]
  note rcards = I[THEN conjunct2, THEN conjunct2, THEN conjunct1]
  note dq = I[THEN conjunct2, THEN conjunct2, THEN conjunct2, THEN conjunct1]
  note rqA = I[THEN conjunct2, THEN conjunct2, THEN conjunct2, THEN conjunct2, THEN conjunct1]
  note rD = I[THEN conjunct2, THEN conjunct2, THEN conjunct2, THEN conjunct2, THEN conjunct2]
  have cards: "\<And>\<tau>. int (card (matched_side g types M \<tau>)) = num" using rcards by blast
  have qA: "\<And>x. x \<in> set (v # rest) \<Longrightarrow> side g types \<sigma> x \<and> M ! nat x = - 1" using rqA by blast
  have D: "\<And>a b. side g types \<sigma> a \<Longrightarrow> M ! nat a = - 1 \<Longrightarrow> a \<notin> set (v # rest) \<Longrightarrow> adj g a b \<Longrightarrow>
      ?n \<le> L ! nat b" using rD by blast
  note V = vl[unfolded valid_labels_def]
  note lenL = V[THEN conjunct1]
  note rV1 = V[THEN conjunct2, THEN conjunct1]
  note rV2 = V[THEN conjunct2, THEN conjunct2, THEN conjunct1]
  note rV3 = V[THEN conjunct2, THEN conjunct2, THEN conjunct2]
  have V1: "\<And>b. side g types (\<not> \<sigma>) b \<Longrightarrow> 0 \<le> L ! nat b \<and> (even (L ! nat b) \<or> ?n \<le> L ! nat b)"
    using rV1 by blast
  have V2: "\<And>b. side g types (\<not> \<sigma>) b \<Longrightarrow> M ! nat b = - 1 \<Longrightarrow> L ! nat b = 0"
    using rV2 by blast
  have V3: "\<And>a b'. side g types \<sigma> a \<Longrightarrow> M ! nat a \<noteq> - 1 \<Longrightarrow> adj g a b' \<Longrightarrow>
      L ! nat (M ! nat a) \<le> L ! nat b' + 2" using rV3 by blast
  have lenM: "length M = vcount g" using mv by (simp add: matching_vector_def)
  have vA: "side g types \<sigma> v" and fv: "M ! nat v = - 1" using qA[of v] by simp_all
  have vv: "vtx g v" using vA by (rule side_vtx)
  have vr: "v \<notin> set rest" using dq by simp
  have dr: "distinct rest" using dq by simp
  have nv: "igraph_vcount g = ?n" by (simp add: igraph_vcount_def)
  obtain neis where neis: "igraph_neighbors g v = Inr neis" "set neis = {u. adj g v u}"
    using neighbors_adj[OF ok vv] by blast
  have nvtx: "\<forall>x\<in>set neis. vtx g x" using neis(2) adj_vtx by blast
  obtain u lu c where fin:
    "for_each (min_label L) neis (- 1, 2 * ?n, lc) = Inr (u, lu, c)" "lu \<le> 2 * ?n"
    "\<forall>x\<in>set neis. lu \<le> L ! nat x" "(u = - 1 \<and> lu = 2 * ?n) \<or> (u \<in> set neis \<and> lu = L ! nat u)"
    using min_label_loop[OF lenL nvtx, of "- 1" "2 * ?n" lc] by blast
  have low: "\<And>b. adj g v b \<Longrightarrow> lu \<le> L ! nat b" using fin(3) neis(2) by simp
  let ?s = "\<lparr>match = M, labels = L, queue = rest, num_matched = num, label_changed = c\<rparr>"
  show ?thesis
  proof (cases "lu < ?n")
    case False
    have p: "push (igraph_vcount g) v u lu ?s = Inr ?s" using False nv by (simp add: push_def)
    have "pr_inv g types \<sigma> M L rest num"
      unfolding pr_inv_def
    proof (intro conjI allI impI ballI)
      show "matching_vector g M" by (rule mv)
      show "valid_labels g types \<sigma> M L" by (rule vl)
      show "\<And>\<tau>. int (card (matched_side g types M \<tau>)) = num" by (rule cards)
      show "distinct rest" by (rule dr)
    next
      fix x assume "x \<in> set rest"
      then show "side g types \<sigma> x" "M ! nat x = - 1" using qA[of x] by simp_all
    next
      fix a b assume h: "side g types \<sigma> a \<and> M ! nat a = - 1 \<and> a \<notin> set rest \<and> adj g a b"
      show "?n \<le> L ! nat b"
      proof (cases "a = v")
        case True
        then show ?thesis using low[of b] h False by simp
      next
        case ne: False
        then show ?thesis using D[of a b] h by simp
      qed
    qed
    then show ?thesis using neis(1) fin(1) p nv by simp
  next
    case True
    have pos: "0 < ?n" using vv by (simp add: vtx_def)
    have um: "u \<in> set neis" "lu = L ! nat u" using fin(4) True pos by auto
    have a: "adj g v u" using um(1) neis(2) by simp
    have vu: "vtx g u" using a adj_vtx by blast
    have uB: "side g types (\<not> \<sigma>) u" using adj_side[OF bp a vA] .
    have ne: "u \<noteq> v" using adj_irrefl[OF bp] a by auto
    have Lu: "0 \<le> L ! nat u" "L ! nat u < ?n" using V1[OF uB] True um(2) by simp_all
    have AB: "\<And>x y. side g types \<sigma> x \<Longrightarrow> side g types (\<not> \<sigma>) y \<Longrightarrow> x \<noteq> y"
      by (auto simp: side_def)
    define w where "w = M ! nat u"
    have wv: "w \<noteq> v"
    proof
      assume "w = v"
      then have "M ! nat u \<noteq> - 1" using vv w_def by (auto simp: vtx_def)
      then have "M ! nat (M ! nat u) = u" using partner[OF mv vu] by simp
      then show False using fv vu \<open>w = v\<close> w_def by (auto simp: vtx_def)
    qed
    define Mm where "Mm = (if w = - 1 then M else M[nat u := - 1, nat w := - 1])"
    define qm where "qm = (if w = - 1 then rest else rest @ [w])"
    define numm where "numm = (if w = - 1 then num else num - 1)"
    have wp: "adj g u w \<and> M ! nat w = u \<and> vtx g w \<and> side g types \<sigma> w" if "w \<noteq> - 1"
    proof -
      have p: "adj g u w" "M ! nat w = u" "vtx g w" using partner[OF mv vu] that w_def by auto
      then show ?thesis using adj_side'[OF bp p(1) uB] by simp
    qed
    have mm_mv: "matching_vector g Mm"
      using mv unmatch_pair(1)[OF bp mv vu w_def[symmetric]] by (auto simp: Mm_def)
    have mm_cards: "int (card (matched_side g types Mm \<tau>)) = numm" for \<tau>
    proof (cases "w = - 1")
      case True
      then show ?thesis using cards by (simp add: Mm_def numm_def)
    next
      case False
      have "Suc (card (matched_side g types (M[nat u := - 1, nat w := - 1]) \<tau>)) =
         card (matched_side g types M \<tau>)"
        by (rule unmatch_pair(2)[OF bp mv vu w_def[symmetric] False])
      then show ?thesis using False cards[of \<tau>] by (simp add: Mm_def numm_def)
    qed
    have mm_nth: "Mm ! nat x = (if w \<noteq> - 1 \<and> (x = u \<or> x = w) then - 1 else M ! nat x)"
      if "vtx g x" for x
    proof (cases "w = - 1")
      case True
      then show ?thesis by (simp add: Mm_def)
    next
      case False
      then show ?thesis
        using unmatch_pair(3)[OF bp mv vu w_def[symmetric] False that] by (simp add: Mm_def)
    qed
    have mm_u: "Mm ! nat u = - 1" using mm_nth[OF vu] w_def by auto
    have mm_v: "Mm ! nat v = - 1" using mm_nth[OF vv] fv by auto
    have lenMm: "length Mm = vcount g" using mm_mv by (simp add: matching_vector_def)
    define M4 where "M4 = Mm[nat u := v, nat v := u]"
    define L2 where "L2 = L[nat v := L ! nat u + 1, nat u := L ! nat u + 2]"
    have m4_mv: "matching_vector g M4"
      unfolding M4_def by (rule match_pair(1)[OF bp mm_mv a mm_v mm_u])
    have m4_cards: "int (card (matched_side g types M4 \<tau>)) = numm + 1" for \<tau>
      using match_pair(2)[OF bp mm_mv a mm_v mm_u, of \<tau>] mm_cards[of \<tau>] by (simp add: M4_def)
    have m4_nth: "M4 ! nat x = (if x = v then u else if x = u then v else Mm ! nat x)"
      if "vtx g x" for x
      using that vu vv ne lenMm by (auto simp: M4_def nth_list_update vtx_def)
    have l2_nth: "L2 ! nat x = (if x = u then L ! nat u + 2 else if x = v then L ! nat u + 1
        else L ! nat x)" if "vtx g x" for x
      using that vu vv ne lenL by (auto simp: L2_def nth_list_update vtx_def)
    have l2_B: "L2 ! nat b = (if b = u then L ! nat u + 2 else L ! nat b)"
      if "side g types (\<not> \<sigma>) b" for b
      using l2_nth[OF side_vtx[OF that]] AB[OF vA that] by auto
    have l2_ge: "L ! nat b \<le> L2 ! nat b" if "side g types (\<not> \<sigma>) b" for b
      using l2_B[OF that] by auto
    have lenL2: "length L2 = vcount g" using lenL by (simp add: L2_def)
    have r1: "VECTOR L u = Inr (L ! nat u)" by (rule VECTOR_len[OF vu lenL])
    have r2: "VECTOR_set L v (L ! nat u + 1) = Inr (L[nat v := L ! nat u + 1])"
      by (rule VECTOR_set_len[OF vv lenL])
    have r3: "VECTOR M u = Inr w" using VECTOR_len[OF vu lenM] w_def by simp
    have r4: "VECTOR_set Mm u v = Inr (Mm[nat u := v])" by (rule VECTOR_set_len[OF vu lenMm])
    have r5: "VECTOR_set (Mm[nat u := v]) v u = Inr M4"
      unfolding M4_def by (rule VECTOR_set_len[OF vv]) (simp add: lenMm)
    have r6: "VECTOR (L[nat v := L ! nat u + 1]) u = Inr (L ! nat u)"
      using VECTOR_len[OF vu, of "L[nat v := L ! nat u + 1]"] lenL
        nth_upd_vtx[OF vu vv lenL, of "L ! nat u + 1"] ne by simp
    have r7: "VECTOR_set (L[nat v := L ! nat u + 1]) u (L ! nat u + 2) = Inr L2"
      unfolding L2_def by (rule VECTOR_set_len[OF vu]) (simp add: lenL)
    define s' where "s' = \<lparr>match = M4, labels = L2, queue = qm, num_matched = numm + 1,
      label_changed = c + 1\<rparr>"
    have p: "push (igraph_vcount g) v u lu ?s = Inr s'"
    proof (cases "w = - 1")
      case True
      then have e: "Mm = M" "qm = rest" "numm = num" by (simp_all add: Mm_def qm_def numm_def)
      show ?thesis
        using True nv \<open>lu < ?n\<close> um(2) r1 r2 r3 r4[unfolded e] r5[unfolded e] r6 r7
        by (simp add: push_def s'_def e)
    next
      case False
      then have e: "Mm = M[nat u := - 1, nat w := - 1]" "qm = rest @ [w]" "numm = num - 1"
        by (simp_all add: Mm_def qm_def numm_def)
      have vw: "vtx g w" using wp[OF False] by simp
      have u1: "VECTOR_set M u (- 1) = Inr (M[nat u := - 1])" by (rule VECTOR_set_len[OF vu lenM])
      have u2: "VECTOR_set (M[nat u := - 1]) w (- 1) = Inr Mm"
        unfolding e by (rule VECTOR_set_len[OF vw]) (simp add: lenM)
      show ?thesis
        using False wv nv \<open>lu < ?n\<close> um(2) r1 r2 r3 u1 u2 r4 r5 r6 r7
        by (simp add: push_def s'_def e(2,3))
    qed
    have inv': "pr_inv g types \<sigma> M4 L2 qm (numm + 1)"
      unfolding pr_inv_def
    proof (intro conjI allI impI ballI)
      show "matching_vector g M4" by (rule m4_mv)
      show "\<And>\<tau>. int (card (matched_side g types M4 \<tau>)) = numm + 1" by (rule m4_cards)
      show "distinct qm"
      proof (cases "w = - 1")
        case True
        then show ?thesis using dr by (simp add: qm_def)
      next
        case False
        have "w \<notin> set rest"
        proof
          assume "w \<in> set rest"
          then have "M ! nat w = - 1" using qA[of w] by simp
          then show False using wp[OF False] vu by (simp add: vtx_def)
        qed
        then show ?thesis using dr False by (simp add: qm_def)
      qed
    next
      fix x assume x: "x \<in> set qm"
      have xs: "side g types \<sigma> x \<and> Mm ! nat x = - 1"
      proof (cases "x \<in> set rest")
        case True
        then have "side g types \<sigma> x" "M ! nat x = - 1" using qA[of x] by simp_all
        then show ?thesis using mm_nth[OF side_vtx[of g types \<sigma> x]] by auto
      next
        case False
        then have xw: "x = w" "w \<noteq> - 1" using x by (auto simp: qm_def split: if_splits)
        then show ?thesis using wp[OF xw(2)] mm_nth[of w] by simp
      qed
      show "side g types \<sigma> x" using xs by simp
      have "x \<noteq> v" using x vr wv by (auto simp: qm_def split: if_splits)
      moreover have "x \<noteq> u" using AB[OF _ uB] xs by blast
      ultimately show "M4 ! nat x = - 1" using m4_nth[OF side_vtx[of g types \<sigma> x]] xs by simp
    next
      fix a b assume h: "side g types \<sigma> a \<and> M4 ! nat a = - 1 \<and> a \<notin> set qm \<and> adj g a b"
      then have va: "vtx g a" by (auto dest: side_vtx)
      have nu: "u \<noteq> - 1" using vu by (simp add: vtx_def)
      have av: "a \<noteq> v" using h m4_nth[OF vv] nu by auto
      have au: "a \<noteq> u" using AB[OF _ uB] h by blast
      have "Mm ! nat a = - 1" using m4_nth[OF va] av au h by simp
      moreover have "\<not> (w \<noteq> - 1 \<and> a = w)" using h by (auto simp: qm_def)
      ultimately have "M ! nat a = - 1" using mm_nth[OF va] au by (auto split: if_splits)
      moreover have "a \<notin> set (v # rest)" using h av by (auto simp: qm_def split: if_splits)
      ultimately have "?n \<le> L ! nat b" using D[of a b] h by simp
      moreover have "side g types (\<not> \<sigma>) b" using adj_side[OF bp] h by blast
      ultimately show "?n \<le> L2 ! nat b" using l2_ge[of b] by simp
    next
      show "valid_labels g types \<sigma> M4 L2"
        unfolding valid_labels_def
      proof (intro conjI allI impI)
        show "length L2 = vcount g" by (rule lenL2)
      next
        fix b assume b: "side g types (\<not> \<sigma>) b"
        show "0 \<le> L2 ! nat b" using l2_B[OF b] V1[OF b] Lu by auto
        show "even (L2 ! nat b) \<or> ?n \<le> L2 ! nat b"
          using l2_B[OF b] V1[OF b] V1[OF uB] Lu by auto
      next
        fix b assume h: "side g types (\<not> \<sigma>) b \<and> M4 ! nat b = - 1"
        then have b: "side g types (\<not> \<sigma>) b" and vb: "vtx g b" by (auto dest: side_vtx)
        have bv: "b \<noteq> v" using AB[OF vA b] by simp
        have bu: "b \<noteq> u" using h m4_nth[OF vu] vv ne by (auto simp: vtx_def)
        have "Mm ! nat b = - 1" using m4_nth[OF vb] bv bu h by simp
        moreover have "\<not> (w \<noteq> - 1 \<and> b = w)" using wp AB[OF _ b] by blast
        ultimately have "M ! nat b = - 1" using mm_nth[OF vb] bu by (auto split: if_splits)
        then have "L ! nat b = 0" using V2[OF b] by simp
        then show "L2 ! nat b = 0" using l2_B[OF b] bu by simp
      next
        fix a b' assume h: "side g types \<sigma> a \<and> M4 ! nat a \<noteq> - 1 \<and> adj g a b'"
        then have va: "vtx g a" and aA: "side g types \<sigma> a" by (auto dest: side_vtx)
        have b'B: "side g types (\<not> \<sigma>) b'" using adj_side[OF bp] h by blast
        show "L2 ! nat (M4 ! nat a) \<le> L2 ! nat b' + 2"
        proof (cases "a = v")
          case True
          then have "M4 ! nat a = u" using m4_nth[OF vv] by simp
          moreover have "L ! nat u \<le> L ! nat b'" using low[of b'] h True um(2) by simp
          ultimately show ?thesis using l2_B[OF uB] l2_ge[OF b'B] by simp
        next
          case False
          have au: "a \<noteq> u" using AB[OF aA uB] .
          have e1: "M4 ! nat a = Mm ! nat a" using m4_nth[OF va] False au by simp
          then have nw: "\<not> (w \<noteq> - 1 \<and> a = w)" using mm_nth[OF va] h by auto
          then have e2: "Mm ! nat a = M ! nat a" using mm_nth[OF va] au by auto
          have ma: "M ! nat a \<noteq> - 1" using e1 e2 h by simp
          have pa: "adj g a (M ! nat a)" "M ! nat (M ! nat a) = a" using partner[OF mv va ma] by auto
          have mB: "side g types (\<not> \<sigma>) (M ! nat a)" using adj_side[OF bp pa(1) aA] .
          have "M ! nat a \<noteq> u"
          proof
            assume "M ! nat a = u"
            then have "w = a" using pa(2) w_def by simp
            then show False using nw va by (auto simp: vtx_def)
          qed
          then have "L2 ! nat (M ! nat a) = L ! nat (M ! nat a)" using l2_B[OF mB] by simp
          moreover have "L ! nat (M ! nat a) \<le> L ! nat b' + 2" using V3[OF aA ma] h by simp
          ultimately show ?thesis using e1 e2 l2_ge[OF b'B] by simp
        qed
      qed
    qed
    have "potential g types \<sigma> L < potential g types \<sigma> L2"
    proof (rule potential_push[OF uB Lu])
      show "L ! nat u < L2 ! nat u" using l2_B[OF uB] by simp
    next
      fix b assume "side g types (\<not> \<sigma>) b" "b \<noteq> u"
      then show "L2 ! nat b = L ! nat b" using l2_B by simp
    qed
    then show ?thesis using neis(1) fin(1) p inv' nv by (simp add: s'_def)
  qed
qed

lemma discharge_ok:
  assumes ok: "igraph_ok g" and bp: "bipartition g types"
    and inv: "pr_inv g types \<sigma> M L (v # rest) num"
  shows "\<exists>s'. discharge g types \<sigma> v
       \<lparr>match = M, labels = L, queue = rest, num_matched = num, label_changed = lc\<rparr> = Some (Inr s') \<and>
     pr_inv g types \<sigma> (match s') (labels s') (queue s') (num_matched s') \<and>
     (potential g types \<sigma> L < potential g types \<sigma> (labels s') \<or>
      (potential g types \<sigma> L \<le> potential g types \<sigma> (labels s') \<and>
       length (queue s') = length rest))"
proof -
  let ?n = "int (vcount g)"
  let ?s = "\<lparr>match = M, labels = L, queue = rest, num_matched = num, label_changed = lc\<rparr>"
  note I = inv[unfolded pr_inv_def]
  note mv = I[THEN conjunct1]
  note vl = I[THEN conjunct2, THEN conjunct1]
  have lenL: "length L = vcount g" using vl by (simp add: valid_labels_def)
  show ?thesis
  proof (cases "igraph_vcount g div 2 \<le> lc")
    case False
    from push_ok[OF ok bp inv, of lc] obtain neis u lu c s' where
      r: "igraph_neighbors g v = Inr neis"
         "for_each (min_label L) neis (- 1, 2 * igraph_vcount g, lc) = Inr (u, lu, c)"
         "push (igraph_vcount g) v u lu
            \<lparr>match = M, labels = L, queue = rest, num_matched = num, label_changed = c\<rparr> = Inr s'"
         "pr_inv g types \<sigma> (match s') (labels s') (queue s') (num_matched s')"
         "potential g types \<sigma> L < potential g types \<sigma> (labels s') \<or>
            (labels s' = L \<and> length (queue s') = length rest)"
      by blast
    have "discharge g types \<sigma> v ?s = Some (Inr s')"
      using False r(1,2,3) by (simp add: discharge_def Let_def)
    then show ?thesis using r(4,5) by auto
  next
    case True
    from relabel_ok[OF ok bp mv lenL, of \<sigma> L] vl obtain L1 where
      rl: "igraph_i_maximum_bipartite_matching_unweighted_relabel g types L M \<sigma> = Some (Inr L1)"
          "valid_labels g types \<sigma> M L1" "above g types \<sigma> L L1"
      by blast
    have inv1: "pr_inv g types \<sigma> M L1 (v # rest) num"
      unfolding pr_inv_def
    proof (intro conjI)
      show "matching_vector g M" by (rule mv)
      show "valid_labels g types \<sigma> M L1" by (rule rl(2))
      show "\<forall>\<tau>. int (card (matched_side g types M \<tau>)) = num"
        by (rule I[THEN conjunct2, THEN conjunct2, THEN conjunct1])
      show "distinct (v # rest)"
        by (rule I[THEN conjunct2, THEN conjunct2, THEN conjunct2, THEN conjunct1])
      show "\<forall>v\<in>set (v # rest). side g types \<sigma> v \<and> M ! nat v = - 1"
        by (rule I[THEN conjunct2, THEN conjunct2, THEN conjunct2, THEN conjunct2, THEN conjunct1])
      show "\<forall>a b. side g types \<sigma> a \<and> M ! nat a = - 1 \<and> a \<notin> set (v # rest) \<and> adj g a b \<longrightarrow>
          ?n \<le> L1 ! nat b"
      proof (intro allI impI)
        fix a b assume h: "side g types \<sigma> a \<and> M ! nat a = - 1 \<and> a \<notin> set (v # rest) \<and> adj g a b"
        have "?n \<le> L ! nat b"
          using I[THEN conjunct2, THEN conjunct2, THEN conjunct2, THEN conjunct2, THEN conjunct2] h
          by blast
        moreover have "side g types (\<not> \<sigma>) b" using adj_side[OF bp] h by blast
        then have "min (L ! nat b) ?n \<le> L1 ! nat b" using rl(3) by (simp add: above_def)
        ultimately show "?n \<le> L1 ! nat b" by simp
      qed
    qed
    from push_ok[OF ok bp inv1, of 0] obtain neis u lu c s' where
      r: "igraph_neighbors g v = Inr neis"
         "for_each (min_label L1) neis (- 1, 2 * igraph_vcount g, 0) = Inr (u, lu, c)"
         "push (igraph_vcount g) v u lu
            \<lparr>match = M, labels = L1, queue = rest, num_matched = num, label_changed = c\<rparr> = Inr s'"
         "pr_inv g types \<sigma> (match s') (labels s') (queue s') (num_matched s')"
         "potential g types \<sigma> L1 < potential g types \<sigma> (labels s') \<or>
            (labels s' = L1 \<and> length (queue s') = length rest)"
      by blast
    have "discharge g types \<sigma> v ?s = Some (Inr s')"
      using True rl(1) r(1,2,3) by (simp add: discharge_def Let_def)
    moreover have "potential g types \<sigma> L \<le> potential g types \<sigma> L1"
      by (rule potential_mono[OF rl(3)])
    ultimately show ?thesis using r(4,5) by auto
  qed
qed

lemma main_loop_ok:
  assumes ok: "igraph_ok g" and bp: "bipartition g types"
    and inv: "pr_inv g types \<sigma> (match s) (labels s) (queue s) (num_matched s)"
  shows "\<exists>s'. main_loop g types \<sigma> s = Some (Inr s') \<and>
           pr_inv g types \<sigma> (match s') (labels s') [] (num_matched s')"
proof -
  define f where "f = (\<lambda>s::push_relabel.
      (vcount g * vcount g - potential g types \<sigma> (labels s), length (queue s)))"
  define r where "r = inv_image (less_than <*lex*> less_than) f"
  have wfr: "wf r" unfolding r_def by (intro wf_inv_image wf_lex_prod wf_less_than)
  show ?thesis
    using inv
  proof (induction s rule: wf_induct_rule[OF wfr])
    case (1 s)
    show ?case
    proof (cases "queue s")
      case Nil
      then have "main_loop g types \<sigma> s = Some (Inr s)" by (subst main_loop.simps) simp
      then show ?thesis using "1.prems" Nil by auto
    next
      case (Cons v rest)
      have e: "s\<lparr>queue := rest\<rparr> = \<lparr>match = match s, labels = labels s, queue = rest,
          num_matched = num_matched s, label_changed = label_changed s\<rparr>"
        by (cases s) simp
      from discharge_ok[OF ok bp "1.prems"[unfolded Cons], of "label_changed s"]
      obtain s1 where d:
        "discharge g types \<sigma> v (s\<lparr>queue := rest\<rparr>) = Some (Inr s1)"
        "pr_inv g types \<sigma> (match s1) (labels s1) (queue s1) (num_matched s1)"
        "potential g types \<sigma> (labels s) < potential g types \<sigma> (labels s1) \<or>
          (potential g types \<sigma> (labels s) \<le> potential g types \<sigma> (labels s1) \<and>
           length (queue s1) = length rest)"
        unfolding e by blast
      have b: "potential g types \<sigma> (labels s1) \<le> vcount g * vcount g"
        by (rule potential_bound)
      have "(s1, s) \<in> r"
        using d(3) b Cons by (auto simp: r_def f_def)
      from "1.IH"[OF this d(2)] obtain s' where
        "main_loop g types \<sigma> s1 = Some (Inr s')"
        "pr_inv g types \<sigma> (match s') (labels s') [] (num_matched s')" by blast
      moreover have "main_loop g types \<sigma> s = main_loop g types \<sigma> s1"
        using Cons d(1) by (subst main_loop.simps) simp
      ultimately show ?thesis by auto
    qed
  qed
qed

lemma card_vtx: "card {x. vtx g x} \<le> vcount g"
proof -
  have "{x. vtx g x} \<subseteq> int ` {0..<vcount g}"
  proof
    fix b assume "b \<in> {x. vtx g x}"
    then have "b = int (nat b)" "nat b \<in> {0..<vcount g}" by (auto simp: vtx_def)
    then show "b \<in> int ` {0..<vcount g}" by blast
  qed
  then have "card {x. vtx g x} \<le> card (int ` {0..<vcount g})"
    by (intro card_mono) auto
  also have "\<dots> \<le> vcount g" using card_image_le[of "{0..<vcount g}" int] by simp
  finally show ?thesis .
qed

lemma matched_side_partner:
  assumes bp: "bipartition g types" and mv: "matching_vector g M"
    and x: "x \<in> matched_side g types M \<tau>"
  shows "M ! nat x \<in> matched_side g types M (\<not> \<tau>)" and "M ! nat (M ! nat x) = x"
proof -
  have vx: "vtx g x" and mx: "M ! nat x \<noteq> - 1" and tx: "side g types \<tau> x"
    using x by (auto simp: matched_side_def side_def)
  note p = partner[OF mv vx mx]
  show "M ! nat (M ! nat x) = x" by (rule p(2))
  have "side g types (\<not> \<tau>) (M ! nat x)" using adj_side[OF bp p(1) tx] .
  moreover have "x \<noteq> - 1" using vx by (simp add: vtx_def)
  ultimately show "M ! nat x \<in> matched_side g types M (\<not> \<tau>)"
    using p(2) by (auto simp: matched_side_def side_def)
qed

lemma matched_side_le:
  assumes bp: "bipartition g types" and mv: "matching_vector g M"
  shows "card (matched_side g types M \<tau>) \<le> card (matched_side g types M (\<not> \<tau>))"
proof (rule card_inj_on_le[where f = "\<lambda>x. M ! nat x"])
  show "inj_on (\<lambda>x. M ! nat x) (matched_side g types M \<tau>)"
  proof (rule inj_onI)
    fix x y assume "x \<in> matched_side g types M \<tau>" "y \<in> matched_side g types M \<tau>"
      "M ! nat x = M ! nat y"
    then show "x = y"
      using matched_side_partner(2)[OF bp mv, of x \<tau>] matched_side_partner(2)[OF bp mv, of y \<tau>]
      by metis
  qed
  show "(\<lambda>x. M ! nat x) ` matched_side g types M \<tau> \<subseteq> matched_side g types M (\<not> \<tau>)"
    using matched_side_partner(1)[OF bp mv] by blast
  show "finite (matched_side g types M (\<not> \<tau>))" by (rule finite_matched_side)
qed

lemma matched_half:
  assumes bp: "bipartition g types" and mv: "matching_vector g M"
  shows "2 * card (matched_side g types M \<tau>) \<le> vcount g"
proof -
  have d: "matched_side g types M \<tau> \<inter> matched_side g types M (\<not> \<tau>) = {}"
    by (auto simp: matched_side_def)
  have s: "matched_side g types M \<tau> \<union> matched_side g types M (\<not> \<tau>) \<subseteq> {x. vtx g x}"
    by (auto simp: matched_side_def)
  have "2 * card (matched_side g types M \<tau>) \<le>
      card (matched_side g types M \<tau>) + card (matched_side g types M (\<not> \<tau>))"
    using matched_side_le[OF bp mv, of \<tau>] by simp
  also have "\<dots> = card (matched_side g types M \<tau> \<union> matched_side g types M (\<not> \<tau>))"
    using card_Un_disjoint[OF finite_matched_side finite_matched_side d] by simp
  also have "\<dots> \<le> card {x. vtx g x}" by (rule card_mono[OF finite_vtx s])
  also have "\<dots> \<le> vcount g" by (rule card_vtx)
  finally show ?thesis .
qed

text \<open>
  When the queue is empty the labels certify that the matching is maximum: either a
  vertex cover of the size of the matching exists, or the matching has \<open>n div 2\<close> pairs.
\<close>

lemma cover_bound:
  assumes bp: "bipartition g types" and mv: "matching_vector g M"
    and vl: "valid_labels g types \<sigma> M L"
    and D: "\<And>a b. side g types \<sigma> a \<Longrightarrow> M ! nat a = - 1 \<Longrightarrow> adj g a b \<Longrightarrow>
        int (vcount g) \<le> L ! nat b"
    and mv': "matching_vector g M'"
  shows "card (matched_side g types M' \<sigma>) \<le> card (matched_side g types M (\<not> \<sigma>))"
proof -
  let ?n = "int (vcount g)"
  note V = vl[unfolded valid_labels_def]
  note rV1 = V[THEN conjunct2, THEN conjunct1]
  note rV2 = V[THEN conjunct2, THEN conjunct2, THEN conjunct1]
  note rV3 = V[THEN conjunct2, THEN conjunct2, THEN conjunct2]
  have V1: "\<And>b. side g types (\<not> \<sigma>) b \<Longrightarrow> 0 \<le> L ! nat b \<and> (even (L ! nat b) \<or> ?n \<le> L ! nat b)"
    using rV1 by blast
  have V2: "\<And>b. side g types (\<not> \<sigma>) b \<Longrightarrow> M ! nat b = - 1 \<Longrightarrow> L ! nat b = 0"
    using rV2 by blast
  have V3: "\<And>a b'. side g types \<sigma> a \<Longrightarrow> M ! nat a \<noteq> - 1 \<Longrightarrow> adj g a b' \<Longrightarrow>
      L ! nat (M ! nat a) \<le> L ! nat b' + 2" using rV3 by blast
  have AB: "\<And>x y. side g types \<sigma> x \<Longrightarrow> side g types (\<not> \<sigma>) y \<Longrightarrow> x \<noteq> y"
    by (auto simp: side_def)
  have inB: "b \<in> matched_side g types M (\<not> \<sigma>)" if "side g types (\<not> \<sigma>) b" "0 < L ! nat b" for b
    using that V2[of b] by (auto simp: matched_side_def side_def)
  show ?thesis
  proof (cases "\<exists>e. even e \<and> 0 \<le> e \<and> e \<le> ?n \<and> (\<forall>b. side g types (\<not> \<sigma>) b \<longrightarrow> L ! nat b \<noteq> e)")
    case True
    then obtain e where e: "even e" "0 \<le> e" "e \<le> ?n"
      and gap: "\<And>b. side g types (\<not> \<sigma>) b \<Longrightarrow> L ! nat b \<noteq> e" by blast
    define C where "C = {b. side g types (\<not> \<sigma>) b \<and> e < L ! nat b} \<union>
      {a. side g types \<sigma> a \<and> M ! nat a \<noteq> - 1 \<and> L ! nat (M ! nat a) < e}"
    define f where "f = (\<lambda>b. if e < L ! nat b then b else M ! nat b)"
    define h where "h = (\<lambda>a. if a \<in> C then a else M' ! nat a)"
    have finC: "finite C"
      by (rule finite_subset[OF _ finite_vtx[of g]]) (auto simp: C_def side_def)
    have "C \<subseteq> f ` matched_side g types M (\<not> \<sigma>)"
    proof
      fix x assume "x \<in> C"
      then consider "side g types (\<not> \<sigma>) x" "e < L ! nat x"
        | "side g types \<sigma> x" "M ! nat x \<noteq> - 1" "L ! nat (M ! nat x) < e"
        by (auto simp: C_def)
      then show "x \<in> f ` matched_side g types M (\<not> \<sigma>)"
      proof cases
        case 1
        then have "x \<in> matched_side g types M (\<not> \<sigma>)" using inB[of x] e(2) by simp
        moreover have "f x = x" using 1 by (simp add: f_def)
        ultimately show ?thesis by force
      next
        case 2
        have xm: "x \<in> matched_side g types M \<sigma>" using 2 by (auto simp: matched_side_def side_def)
        note p = matched_side_partner[OF bp mv xm]
        have "f (M ! nat x) = x" using 2(3) p(2) by (simp add: f_def)
        then show ?thesis using p(1) by force
      qed
    qed
    then have "card C \<le> card (f ` matched_side g types M (\<not> \<sigma>))"
      by (intro card_mono finite_imageI finite_matched_side)
    also have "\<dots> \<le> card (matched_side g types M (\<not> \<sigma>))"
      by (rule card_image_le[OF finite_matched_side])
    finally have c1: "card C \<le> card (matched_side g types M (\<not> \<sigma>))" .
    have hC: "h a \<in> C" if a: "a \<in> matched_side g types M' \<sigma>" for a
    proof (cases "a \<in> C")
      case True
      then show ?thesis by (simp add: h_def)
    next
      case False
      have aA: "side g types \<sigma> a" and va: "vtx g a" and ma': "M' ! nat a \<noteq> - 1"
        using a by (auto simp: matched_side_def side_def)
      define b' where "b' = M' ! nat a"
      have ab: "adj g a b'" using partner(1)[OF mv' va ma'] by (simp add: b'_def)
      have b'B: "side g types (\<not> \<sigma>) b'" using adj_side[OF bp ab aA] .
      have "e < L ! nat b'"
      proof (rule ccontr)
        assume "\<not> e < L ! nat b'"
        then have lt: "L ! nat b' < e" using gap[OF b'B] by simp
        then have ev: "even (L ! nat b')" using V1[OF b'B] e(3) by auto
        have le: "L ! nat b' + 2 \<le> e"
        proof (rule ccontr)
          assume "\<not> L ! nat b' + 2 \<le> e"
          then have "e = L ! nat b' + 1" using lt by simp
          then show False using ev e(1) by simp
        qed
        have ma: "M ! nat a \<noteq> - 1"
        proof
          assume "M ! nat a = - 1"
          then have "?n \<le> L ! nat b'" using D[OF aA _ ab] by simp
          then show False using lt e(3) by simp
        qed
        have "L ! nat (M ! nat a) \<le> e" using V3[OF aA ma ab] le by simp
        moreover have "side g types (\<not> \<sigma>) (M ! nat a)"
          using adj_side[OF bp partner(1)[OF mv va ma] aA] .
        ultimately have "L ! nat (M ! nat a) < e" using gap[of "M ! nat a"] by simp
        then have "a \<in> C" using aA ma by (simp add: C_def)
        then show False using False by simp
      qed
      then have "b' \<in> C" using b'B by (simp add: C_def)
      then show ?thesis using False by (simp add: h_def b'_def)
    qed
    have inj: "inj_on h (matched_side g types M' \<sigma>)"
    proof (rule inj_onI)
      fix x y assume x: "x \<in> matched_side g types M' \<sigma>" and y: "y \<in> matched_side g types M' \<sigma>"
        and eq: "h x = h y"
      note px = matched_side_partner[OF bp mv' x]
      note py = matched_side_partner[OF bp mv' y]
      have sx: "side g types \<sigma> x" "side g types \<sigma> y"
        using x y by (auto simp: matched_side_def side_def)
      have bx: "side g types (\<not> \<sigma>) (M' ! nat x)" "side g types (\<not> \<sigma>) (M' ! nat y)"
        using px(1) py(1) by (auto simp: matched_side_def side_def)
      consider "x \<in> C" "y \<in> C" | "x \<in> C" "y \<notin> C" | "x \<notin> C" "y \<in> C" | "x \<notin> C" "y \<notin> C"
        by blast
      then show "x = y"
      proof cases
        case 1
        then show ?thesis using eq by (simp add: h_def)
      next
        case 2
        then have "x = M' ! nat y" using eq by (simp add: h_def)
        then show ?thesis using AB[OF sx(1) bx(2)] by simp
      next
        case 3
        then have "M' ! nat x = y" using eq by (simp add: h_def)
        then show ?thesis using AB[OF sx(2) bx(1)] by simp
      next
        case 4
        then have "M' ! nat x = M' ! nat y" using eq by (simp add: h_def)
        then show ?thesis using px(2) py(2) by metis
      qed
    qed
    have "card (matched_side g types M' \<sigma>) \<le> card C"
      by (rule card_inj_on_le[OF inj _ finC]) (use hC in blast)
    then show ?thesis using c1 by simp
  next
    case False
    then have all: "\<And>e. even e \<Longrightarrow> 0 \<le> e \<Longrightarrow> e \<le> ?n \<Longrightarrow>
        \<exists>b. side g types (\<not> \<sigma>) b \<and> L ! nat b = e" by blast
    define m where "m = vcount g div 2"
    have "(\<lambda>k. 2 * int k) ` {1..m} \<subseteq> (\<lambda>b. L ! nat b) ` matched_side g types M (\<not> \<sigma>)"
    proof
      fix e assume "e \<in> (\<lambda>k. 2 * int k) ` {1..m}"
      then obtain k where k: "e = 2 * int k" "1 \<le> k" "k \<le> m" by auto
      have "2 * m \<le> vcount g" by (simp add: m_def)
      then have "2 * k \<le> vcount g" using k(3) by simp
      then have "e \<le> ?n" using k(1) by simp
      then obtain b where b: "side g types (\<not> \<sigma>) b" "L ! nat b = e"
        using all[of e] k(1) by auto
      have "b \<in> matched_side g types M (\<not> \<sigma>)" using inB[OF b(1)] b(2) k(1,2) by simp
      then show "e \<in> (\<lambda>b. L ! nat b) ` matched_side g types M (\<not> \<sigma>)" using b(2) by blast
    qed
    then have "card ((\<lambda>k. 2 * int k) ` {1..m}) \<le>
        card ((\<lambda>b. L ! nat b) ` matched_side g types M (\<not> \<sigma>))"
      by (intro card_mono finite_imageI finite_matched_side)
    also have "\<dots> \<le> card (matched_side g types M (\<not> \<sigma>))"
      by (rule card_image_le[OF finite_matched_side])
    finally have "card ((\<lambda>k. 2 * int k) ` {1..m}) \<le> card (matched_side g types M (\<not> \<sigma>))" .
    moreover have "card ((\<lambda>k. 2 * int k) ` {1..m}) = m"
      by (subst card_image) (auto simp: inj_on_def)
    moreover have "card (matched_side g types M' \<sigma>) \<le> m"
      using matched_half[OF bp mv', of \<sigma>] by (simp add: m_def)
    ultimately show ?thesis by simp
  qed
qed

lemma activate_step:
  assumes bp: "bipartition g types" and mv: "matching_vector g M"
    and j: "j < vcount g" and inv: "active_inv g types \<sigma> M j q"
  shows "\<exists>q'. activate types M \<sigma> j q = Inr q' \<and> active_inv g types \<sigma> M (Suc j) q'"
proof -
  have dq: "distinct q"
    and qs: "\<And>v. v \<in> set q \<longleftrightarrow> (v < int j \<and> side g types \<sigma> v \<and> M ! nat v = - 1)"
    using inv by (auto simp: active_inv_def)
  have vj: "vtx g (int j)" using j by (simp add: vtx_def)
  have lenT: "vcount g \<le> length types" using bp by (simp add: bipartition_def)
  have lenM: "length M = vcount g" using mv by (simp add: matching_vector_def)
  have rdt: "VECTOR types (int j) = Inr (types ! j)" using VECTOR_vtx[OF vj lenT] by simp
  have rdm: "VECTOR M (int j) = Inr (M ! j)" using VECTOR_len[OF vj lenM] by simp
  have sj: "side g types \<sigma> (int j) \<longleftrightarrow> types ! j = \<sigma>" using vj by (auto simp: side_def)
  have lt: "x < int (Suc j) \<longleftrightarrow> x < int j \<or> x = int j" for x by auto
  have nj: "int j \<notin> set q" using qs[of "int j"] by simp
  show ?thesis
  proof (cases "M ! j = - 1 \<and> types ! j = \<sigma>")
    case True
    have res: "activate types M \<sigma> j q = Inr (q @ [int j])"
      using rdt rdm True by (simp add: activate_def)
    have "active_inv g types \<sigma> M (Suc j) (q @ [int j])"
      unfolding active_inv_def
    proof (intro conjI allI)
      show "distinct (q @ [int j])" using dq nj by simp
    next
      fix v
      show "v \<in> set (q @ [int j]) \<longleftrightarrow> (v < int (Suc j) \<and> side g types \<sigma> v \<and> M ! nat v = - 1)"
        using qs[of v] True sj unfolding lt by auto
    qed
    then show ?thesis using res by blast
  next
    case False
    then have res: "activate types M \<sigma> j q = Inr q"
      using rdt rdm by (auto simp: activate_def)
    have "active_inv g types \<sigma> M (Suc j) q"
      unfolding active_inv_def
    proof (intro conjI allI)
      show "distinct q" by (rule dq)
    next
      fix v
      show "v \<in> set q \<longleftrightarrow> (v < int (Suc j) \<and> side g types \<sigma> v \<and> M ! nat v = - 1)"
        using qs[of v] False sj unfolding lt by auto
    qed
    then show ?thesis using res by blast
  qed
qed

lemma activate_loop:
  assumes bp: "bipartition g types" and mv: "matching_vector g M"
  shows "\<exists>q. for_each (activate types M \<sigma>) [0..<vcount g] [] = Inr q \<and> distinct q \<and>
           (\<forall>v. v \<in> set q \<longleftrightarrow> (side g types \<sigma> v \<and> M ! nat v = - 1))"
proof -
  have "\<exists>q. for_each (activate types M \<sigma>) [0..<vcount g] [] = Inr q \<and>
      active_inv g types \<sigma> M (vcount g) q"
  proof (rule for_each_upt_invariant[where I = "active_inv g types \<sigma> M"])
    show "active_inv g types \<sigma> M 0 []" by (auto simp: active_inv_def side_def vtx_def)
  next
    fix j q assume "j < vcount g" "active_inv g types \<sigma> M j q"
    then show "\<exists>q'. activate types M \<sigma> j q = Inr q' \<and> active_inv g types \<sigma> M (Suc j) q'"
      using activate_step[OF bp mv] by blast
  qed
  then obtain q where q: "for_each (activate types M \<sigma>) [0..<vcount g] [] = Inr q"
    "active_inv g types \<sigma> M (vcount g) q" by blast
  have "distinct q" using q(2) by (simp add: active_inv_def)
  moreover have "v \<in> set q \<longleftrightarrow> (side g types \<sigma> v \<and> M ! nat v = - 1)" for v
    using q(2) by (auto simp: active_inv_def side_def vtx_def)
  ultimately show ?thesis using q(1) by blast
qed

text \<open>The unweighted matcher ends, and returns a matching of maximum size.\<close>

lemma unweighted_ok:
  assumes ok: "igraph_ok g" and bp: "bipartition g types"
  shows "\<exists>M k. igraph_i_maximum_bipartite_matching_unweighted g types out =
           Some (Inr (out\<lparr>
             matching := (case matching out of None \<Rightarrow> None | Some _ \<Rightarrow> Some M),
             matching_size := (case matching_size out of None \<Rightarrow> None | Some _ \<Rightarrow> Some k)\<rparr>)) \<and>
         matching_vector g M \<and>
         (\<forall>\<tau>. int (card (matched_side g types M \<tau>)) = k) \<and>
         (\<forall>M' \<tau>. matching_vector g M' \<longrightarrow> int (card (matched_side g types M' \<tau>)) \<le> k)"
proof -
  obtain M0 num0 j where gr:
    "for_each (greedy_vertex g types) [0..<vcount g] (replicate (vcount g) (- 1), 0, 0) =
       Inr (M0, num0, j)"
    "greedy_inv g types (M0, num0, j)"
    using greedy_ok[OF ok bp] by (metis prod_cases3)
  have mv0: "matching_vector g M0"
    and c0: "\<And>\<tau>. int (card (matched_side g types M0 \<tau>)) = num0"
    using gr(2) by (auto simp: greedy_inv_def)
  define \<sigma> where "\<sigma> = (j \<le> igraph_vcount g div 2)"
  obtain L0 where rl:
    "igraph_i_maximum_bipartite_matching_unweighted_relabel g types (replicate (vcount g) 0) M0 \<sigma>
       = Some (Inr L0)"
    "valid_labels g types \<sigma> M0 L0"
    using relabel_ok[OF ok bp mv0, of "replicate (vcount g) 0" \<sigma>] by auto
  obtain q0 where ac: "for_each (activate types M0 \<sigma>) [0..<vcount g] [] = Inr q0" "distinct q0"
    "\<And>v. v \<in> set q0 \<longleftrightarrow> (side g types \<sigma> v \<and> M0 ! nat v = - 1)"
    using activate_loop[OF bp mv0, of \<sigma>] by blast
  let ?s0 = "\<lparr>match = M0, labels = L0, queue = q0, num_matched = num0, label_changed = 0\<rparr>"
  have "pr_inv g types \<sigma> M0 L0 q0 num0"
    unfolding pr_inv_def using mv0 rl(2) c0 ac(2,3) by blast
  then have "pr_inv g types \<sigma> (match ?s0) (labels ?s0) (queue ?s0) (num_matched ?s0)" by simp
  from main_loop_ok[OF ok bp this] obtain s where fin:
    "main_loop g types \<sigma> ?s0 = Some (Inr s)"
    "pr_inv g types \<sigma> (match s) (labels s) [] (num_matched s)" by blast
  note I = fin(2)[unfolded pr_inv_def]
  note mv = I[THEN conjunct1]
  note vl = I[THEN conjunct2, THEN conjunct1]
  have cards: "\<And>\<tau>. int (card (matched_side g types (match s) \<tau>)) = num_matched s"
    using I[THEN conjunct2, THEN conjunct2, THEN conjunct1] by blast
  have D: "\<And>a b. side g types \<sigma> a \<Longrightarrow> match s ! nat a = - 1 \<Longrightarrow> adj g a b \<Longrightarrow>
      int (vcount g) \<le> labels s ! nat b"
    using I[THEN conjunct2, THEN conjunct2, THEN conjunct2, THEN conjunct2, THEN conjunct2]
    by simp
  have best: "int (card (matched_side g types M' \<tau>)) \<le> num_matched s"
    if mv': "matching_vector g M'" for M' \<tau>
  proof -
    have a: "card (matched_side g types M' \<sigma>) \<le> card (matched_side g types (match s) (\<not> \<sigma>))"
      by (rule cover_bound[OF bp mv vl D mv'])
    have "card (matched_side g types M' (\<not> \<sigma>)) \<le> card (matched_side g types M' \<sigma>)"
      using matched_side_le[OF bp mv', of "\<not> \<sigma>"] by simp
    then have "card (matched_side g types M' \<tau>) \<le> card (matched_side g types (match s) (\<not> \<sigma>))"
      using a by (cases "\<tau> = \<sigma>") auto
    then show ?thesis using cards[of "\<not> \<sigma>"] by simp
  qed
  have "igraph_i_maximum_bipartite_matching_unweighted g types out =
           Some (Inr (out\<lparr>
             matching := (case matching out of None \<Rightarrow> None | Some _ \<Rightarrow> Some (match s)),
             matching_size := (case matching_size out of None \<Rightarrow> None
                               | Some _ \<Rightarrow> Some (num_matched s))\<rparr>))"
    using gr(1) rl(1) ac(1) fin(1)
    by (simp add: igraph_i_maximum_bipartite_matching_unweighted_def Let_def \<sigma>_def)
  then show ?thesis using mv cards best by blast
qed

text \<open>The matching vectors are the vectors without a defect.\<close>

lemma matching_vector_iff: "matching_vector g M \<longleftrightarrow> \<not> matching_defect g None M"
proof (cases "length M = vcount g")
  case False
  then show ?thesis by (simp add: matching_vector_def matching_defect_def)
next
  case True
  have "(\<forall>x. vtx g x \<longrightarrow> M ! nat x = - 1 \<or> (adj g x (M ! nat x) \<and> M ! nat (M ! nat x) = x))
      \<longleftrightarrow> (\<forall>i\<in>{0..<vcount g}. pair_ok g M i)"
  proof
    assume h: "\<forall>x. vtx g x \<longrightarrow> M ! nat x = - 1 \<or> (adj g x (M ! nat x) \<and> M ! nat (M ! nat x) = x)"
    show "\<forall>i\<in>{0..<vcount g}. pair_ok g M i"
    proof
      fix i assume "i \<in> {0..<vcount g}"
      then have "vtx g (int i)" by (simp add: vtx_def)
      then have "M ! i = - 1 \<or> (adj g (int i) (M ! i) \<and> M ! nat (M ! i) = int i)"
        using h[THEN spec, of "int i"] by simp
      then show "pair_ok g M i" by (auto simp: pair_ok_def adj_def vtx_def)
    qed
  next
    assume h: "\<forall>i\<in>{0..<vcount g}. pair_ok g M i"
    show "\<forall>x. vtx g x \<longrightarrow> M ! nat x = - 1 \<or> (adj g x (M ! nat x) \<and> M ! nat (M ! nat x) = x)"
    proof (intro allI impI)
      fix x assume x: "vtx g x"
      then have "nat x \<in> {0..<vcount g}" by (auto simp: vtx_def)
      then have "pair_ok g M (nat x)" using h by blast
      then show "M ! nat x = - 1 \<or> (adj g x (M ! nat x) \<and> M ! nat (M ! nat x) = x)"
        using x by (auto simp: pair_ok_def adj_def vtx_def)
    qed
  qed
  then show ?thesis
    using True matching_defect_iff[OF True, of None] by (simp add: matching_vector_def)
qed

lemma matching_vector_types:
  assumes bp: "bipartition g types" and mv: "matching_vector g M"
  shows "\<not> matching_defect g (Some types) M"
proof -
  have len: "length M = vcount g" using mv by (simp add: matching_vector_def)
  have a: "\<forall>i\<in>{0..<vcount g}. pair_ok g M i"
    using mv matching_vector_iff[of g M] matching_defect_iff[OF len, of None] by simp
  have b: "\<forall>i\<in>{0..<vcount g}. M ! i \<noteq> - 1 \<longrightarrow> types ! i \<noteq> types ! nat (M ! i)"
  proof (intro ballI impI)
    fix i assume i: "i \<in> {0..<vcount g}" and m: "M ! i \<noteq> - 1"
    have v: "vtx g (int i)" using i by (simp add: vtx_def)
    have "adj g (int i) (M ! i)" using partner(1)[OF mv v] m by simp
    then show "types ! i \<noteq> types ! nat (M ! i)" using adj_types[OF bp] by fastforce
  qed
  show ?thesis using a b matching_defect_iff[OF len, of "Some types"] by simp
qed

lemma matched_vertices_card:
  assumes len: "length M = vcount g"
  shows "matched_vertices M =
     card (matched_side g types M True) + card (matched_side g types M False)"
proof -
  let ?S = "{i. i < length M \<and> M ! i \<noteq> - 1}"
  have "matched_side g types M True \<union> matched_side g types M False = int ` ?S"
  proof (intro set_eqI iffI)
    fix x assume "x \<in> matched_side g types M True \<union> matched_side g types M False"
    then have "nat x \<in> ?S" "x = int (nat x)" using len by (auto simp: matched_side_def vtx_def)
    then show "x \<in> int ` ?S" by blast
  next
    fix x assume "x \<in> int ` ?S"
    then obtain i where "x = int i" "i < length M" "M ! i \<noteq> - 1" by blast
    then show "x \<in> matched_side g types M True \<union> matched_side g types M False"
      using len by (auto simp: matched_side_def vtx_def)
  qed
  moreover have "matched_side g types M True \<inter> matched_side g types M False = {}"
    by (auto simp: matched_side_def)
  ultimately have "card (matched_side g types M True) + card (matched_side g types M False) =
      card (int ` ?S)"
    using card_Un_disjoint[OF finite_matched_side finite_matched_side, of g types M True g types M False]
    by simp
  also have "\<dots> = card ?S" by (rule card_image) (simp add: inj_on_def)
  also have "\<dots> = matched_vertices M"
    by (simp add: matched_vertices_def length_filter_conv_card)
  finally show ?thesis by simp
qed

lemma bipartite_maximum:
  assumes ok: "igraph_ok g" and len: "vcount g \<le> length types"
    and ns: "\<not> same_type_edge g types"
    and o1: "matching out \<noteq> None" and o2: "matching_size out \<noteq> None"
  shows "\<exists>r m k. igraph_maximum_bipartite_matching g types out None eps = Some (Inr r) \<and>
      matching r = Some m \<and> matching_size r = Some k \<and>
      matching_weight r = map_option (\<lambda>_. real_of_int k) (matching_weight out) \<and>
      igraph_is_matching g (Some types) m = Inr True \<and>
      int (matched_vertices m) = 2 * k \<and>
      (\<forall>m'. igraph_is_matching g None m' = Inr True \<longrightarrow> int (matched_vertices m') \<le> 2 * k)"
proof -
  have bp: "bipartition g types" using len ns by (simp add: bipartition_def)
  from unweighted_ok[OF ok bp, of out] obtain M k where u:
    "igraph_i_maximum_bipartite_matching_unweighted g types out =
           Some (Inr (out\<lparr>
             matching := (case matching out of None \<Rightarrow> None | Some _ \<Rightarrow> Some M),
             matching_size := (case matching_size out of None \<Rightarrow> None | Some _ \<Rightarrow> Some k)\<rparr>))"
    "matching_vector g M"
    "\<And>\<tau>. int (card (matched_side g types M \<tau>)) = k"
    "\<And>M' \<tau>. matching_vector g M' \<Longrightarrow> int (card (matched_side g types M' \<tau>)) \<le> k"
    by blast
  define r where "r = out\<lparr>matching := Some M, matching_size := Some k,
    matching_weight := map_option (\<lambda>_. real_of_int k) (matching_weight out)\<rparr>"
  have nl: "\<not> int (length types) < igraph_vcount g" using len by (simp add: igraph_vcount_def)
  have run: "igraph_maximum_bipartite_matching g types out None eps = Some (Inr r)"
    using o1 o2 nl u(1)
    by (cases "matching_weight out")
      (auto simp: igraph_maximum_bipartite_matching_def maximum_bipartite_matching_null_weights_def
        r_def)
  have lenM: "length M = vcount g" using u(2) by (simp add: matching_vector_def)
  have tc: "types_cover g (Some types)" "types_cover g None" using len by (simp_all add: types_cover_def)
  have valid: "igraph_is_matching g (Some types) M = Inr True"
    using is_matching_result[OF tc(1), of M] matching_vector_types[OF bp u(2)] by simp
  have size: "int (matched_vertices M) = 2 * k"
    using matched_vertices_card[OF lenM, of types] u(3)[of True] u(3)[of False] by simp
  have best: "int (matched_vertices m') \<le> 2 * k" if "igraph_is_matching g None m' = Inr True" for m'
  proof -
    have "\<not> matching_defect g None m'" using is_matching_result[OF tc(2), of m'] that by simp
    then have mv': "matching_vector g m'" by (simp add: matching_vector_iff)
    then have "length m' = vcount g" by (simp add: matching_vector_def)
    then show ?thesis
      using matched_vertices_card[of m' g types] u(4)[OF mv', of True] u(4)[OF mv', of False]
      by simp
  qed
  have "matching r = Some M" "matching_size r = Some k"
    "matching_weight r = map_option (\<lambda>_. real_of_int k) (matching_weight out)"
    by (simp_all add: r_def)
  then show ?thesis using run valid size best by blast
qed
section \<open>The claims\<close>

subsection \<open>The validator\<close>

text \<open>
  Claim C5.  For every graph, optional types vector (with an entry for every vertex, when
  given) and candidate matching vector, \<^verbatim>\<open>igraph_is_matching\<close> succeeds, and its result
  is false exactly when one of the five defects holds: the length of the vector differs
  from the vertex count, an entry is outside \<open>[-1, n)\<close>, a pairing is asymmetric, a
  claimed pair has no edge in either direction, or, with types, a matched pair has equal
  types.  Otherwise the result is true.
\<close>

theorem is_matching_exact:
  "types_cover g types \<Longrightarrow> igraph_is_matching g types m = Inr (\<not> matching_defect g types m)"
  by (rule is_matching_result)

theorem is_matching_exact_witness:
  "types_cover path4 (Some [False, True, False, True]) \<and>
   igraph_is_matching path4 (Some [False, True, False, True]) [1, 0, 3, 2] = Inr True \<and>
   igraph_is_matching path4 (Some [False, True, False, True]) [2, - 1, 0, - 1] = Inr False \<and>
   matching_defect path4 (Some [False, True, False, True]) [2, - 1, 0, - 1]"
proof -
  have c: "types_cover path4 (Some [False, True, False, True])"
    by (simp add: types_cover_def path4_def)
  have d1: "\<not> matching_defect path4 (Some [False, True, False, True]) [1, 0, 3, 2]"
    by (simp add: matching_defect_def has_edge_def path4_def bex_upt upt_rec)
  have d2: "matching_defect path4 (Some [False, True, False, True]) [2, - 1, 0, - 1]"
    by (simp add: matching_defect_def has_edge_def path4_def bex_upt upt_rec)
  show ?thesis
    using c d1 d2 is_matching_exact [OF c, of "[1, 0, 3, 2]"]
      is_matching_exact [OF c, of "[2, - 1, 0, - 1]"]
    by simp
qed

text \<open>
  Claim C7, as stated: a candidate matching that pairs a vertex with itself is rejected
  even if the graph has a self-loop there.  It fails without a types vector: on the
  graph of one vertex with a self-loop, the matching \<open>[0]\<close> is accepted.
\<close>

theorem self_loop_pair_accepted:
  "igraph_is_matching loop1 None [0] = Inr True"
  by code_simp

text \<open>
  Claim C7, amended.  For every graph and every candidate matching in which some vertex
  \<open>v\<close> is paired with itself, \<^verbatim>\<open>igraph_is_matching\<close> returns false when a types vector
  is supplied, and also without a types vector when the graph has no self-loop at \<open>v\<close>.
\<close>

theorem is_matching_self_pair:
  "types_cover g types \<Longrightarrow> v < vcount g \<Longrightarrow> m ! v = int v \<Longrightarrow>
   types \<noteq> None \<or> (v, v) \<notin> set (edgelist g) \<Longrightarrow>
   igraph_is_matching g types m = Inr False"
  by (rule self_pair_rejected)

theorem is_matching_self_pair_witness:
  "igraph_is_matching loop1 (Some [True]) [0] = Inr False \<and>
   igraph_is_matching single_edge None [0, 1] = Inr False"
proof -
  have a: "igraph_is_matching loop1 (Some [True]) [0] = Inr False"
    using is_matching_self_pair [of loop1 "Some [True]" 0 "[0]"]
    by (simp add: types_cover_def loop1_def)
  have b: "igraph_is_matching single_edge None [0, 1] = Inr False"
    using is_matching_self_pair [of single_edge None 0 "[0, 1]"]
    by (simp add: types_cover_def single_edge_def)
  show ?thesis using a b by simp
qed

text \<open>
  Claim C6, as stated: \<^verbatim>\<open>igraph_is_maximal_matching\<close> returns true iff the vector is a
  matching and no two unmatched vertices are adjacent.  It fails on the graph of one
  vertex with a self-loop and the empty matching: the vector is a matching, there are no
  two unmatched vertices, and the result is false, because the vertex is its own
  neighbour.
\<close>

theorem self_loop_not_maximal:
  "igraph_is_matching loop1 None [- 1] = Inr True \<and>
   \<not> two_unmatched_adjacent loop1 None [- 1] \<and>
   igraph_is_maximal_matching loop1 None [- 1] = Inr False"
proof -
  have "\<not> two_unmatched_adjacent loop1 None [- 1]"
    by (simp add: two_unmatched_adjacent_def loop1_def bex_upt upt_rec)
  moreover have "igraph_is_matching loop1 None [- 1] = Inr True" by code_simp
  moreover have "igraph_is_maximal_matching loop1 None [- 1] = Inr False" by code_simp
  ultimately show ?thesis by simp
qed

text \<open>
  Claim C6, amended.  For every graph, optional types vector and candidate matching,
  \<^verbatim>\<open>igraph_is_maximal_matching\<close> returns true iff \<^verbatim>\<open>igraph_is_matching\<close> holds and no
  unmatched vertex has an unmatched neighbour (of the opposite type, when types are
  given), where a vertex with a self-loop is a neighbour of itself.  With types, or in a
  graph without self-loops, this is the condition that no two unmatched vertices are
  adjacent.  On the star with \<open>k\<close> leaves the matching of the centre with one leaf is
  maximal, whatever the number of leaves it leaves unmatched.
\<close>

theorem is_maximal_matching_exact:
  "(igraph_ok g \<and> types_cover g types \<longrightarrow>
      igraph_is_maximal_matching g types m =
        Inr (\<not> matching_defect g types m \<and> \<not> unmatched_neighbour g types m)) \<and>
   (types \<noteq> None \<or> list_all (\<lambda>e. fst e \<noteq> snd e) (edgelist g) \<longrightarrow>
      unmatched_neighbour g types m = two_unmatched_adjacent g types m) \<and>
   (1 \<le> j \<and> j \<le> k \<longrightarrow>
      igraph_is_maximal_matching (star k) None (star_matching k j) = Inr True)"
proof (intro conjI impI)
  assume "igraph_ok g \<and> types_cover g types"
  then show "igraph_is_maximal_matching g types m =
        Inr (\<not> matching_defect g types m \<and> \<not> unmatched_neighbour g types m)"
    using is_maximal_matching_eq by blast
next
  assume a: "types \<noteq> None \<or> list_all (\<lambda>e. fst e \<noteq> snd e) (edgelist g)"
  have "\<not> unmatched_adjacent g types m i i" for i
    using a by (cases types) (auto simp: unmatched_adjacent_def has_edge_def list_all_iff)
  then have "unmatched_adjacent g types m i k \<longleftrightarrow> i \<noteq> k \<and> unmatched_adjacent g types m i k"
    for i k by blast
  then show "unmatched_neighbour g types m = two_unmatched_adjacent g types m"
    unfolding unmatched_neighbour_def two_unmatched_adjacent_def by simp
next
  assume "1 \<le> j \<and> j \<le> k"
  then show "igraph_is_maximal_matching (star k) None (star_matching k j) = Inr True"
    using star_maximal by blast
qed

theorem is_maximal_matching_exact_witness:
  "igraph_ok path4 \<and> types_cover path4 None \<and>
   igraph_is_maximal_matching path4 None [- 1, 2, 1, - 1] = Inr True \<and>
   igraph_is_maximal_matching path4 None [1, 0, - 1, - 1] = Inr False \<and>
   two_unmatched_adjacent path4 None [1, 0, - 1, - 1] \<and>
   igraph_is_maximal_matching (star 3) None (star_matching 3 1) = Inr True"
proof -
  have ok: "igraph_ok path4 \<and> types_cover path4 None"
    by (simp add: igraph_ok_def types_cover_def path4_def)
  have simple: "list_all (\<lambda>e. fst e \<noteq> snd e) (edgelist path4)"
    by (simp add: path4_def)
  have d1: "\<not> matching_defect path4 None [- 1, 2, 1, - 1]"
    by (simp add: matching_defect_def has_edge_def path4_def bex_upt upt_rec)
  have u1: "\<not> unmatched_neighbour path4 None [- 1, 2, 1, - 1]"
    by (simp add: unmatched_neighbour_def unmatched_adjacent_def has_edge_def path4_def
          bex_upt upt_rec)
  have d2: "\<not> matching_defect path4 None [1, 0, - 1, - 1]"
    by (simp add: matching_defect_def has_edge_def path4_def bex_upt upt_rec)
  have u2: "unmatched_neighbour path4 None [1, 0, - 1, - 1]"
    by (simp add: unmatched_neighbour_def unmatched_adjacent_def has_edge_def path4_def
          bex_upt upt_rec)
  show ?thesis
    using ok simple d1 u1 d2 u2
      is_maximal_matching_exact [of path4 None "[- 1, 2, 1, - 1]" 1 3]
      is_maximal_matching_exact [of path4 None "[1, 0, - 1, - 1]" 1 3]
    by simp
qed

subsection \<open>The general-graph matcher\<close>

text \<open>
  Claim C10 says that for every graph \<^verbatim>\<open>igraph_maximum_matching\<close> writes 0 to
  \<^verbatim>\<open>*matching_size\<close> and returns successfully, the caller's matching vector unchanged.
  No run gets there with a defined result.  With at least one vertex, the first phase
  fills the vector \<^verbatim>\<open>visited_nodes\<close> (line 1226), whose initialisation is commented out
  (line 1159), before anything is stored.  With no vertex, 0 is stored and the same
  vector is then destroyed (line 1361); with a null \<^verbatim>\<open>matching_size\<close> the store itself
  is outside C.  On the path \<open>0-1-2-3\<close> the run ends at line 1226.
\<close>

theorem maximum_matching_uninitialized:
  "igraph_maximum_matching g out weights =
     Some (Inl (if vcount g = 0 \<and> matching_size out = None then OUT_OF_BOUNDS
                else UNINITIALIZED)) \<and>
   igraph_maximum_matching path4
     \<lparr>matching_size = Some 5, matching_weight = Some 1, matching = Some [7, 7]\<rparr> None =
     Some (Inl UNINITIALIZED)"
  by (simp add: igraph_maximum_matching_def unweighted_general_result path4_def)

text \<open>
  Claim C1, as stated: a call of \<^verbatim>\<open>igraph_maximum_matching\<close> with a weights vector is
  rejected with an unsupported-feature error.  It is not: on a single edge of weight 1
  the function starts the search without a look at the weights, and the run ends where
  the run with null weights ends, at the fill of \<^verbatim>\<open>visited_nodes\<close>.
\<close>

theorem weights_not_rejected:
  "igraph_maximum_matching single_edge fresh (Some [1]) = Some (Inl UNINITIALIZED) \<and>
   igraph_maximum_matching single_edge fresh (Some [1]) \<noteq> Some (Inl IGRAPH_UNIMPLEMENTED)"
  by code_simp

text \<open>
  Claim C1, amended.  For every graph and every weights vector, \<^verbatim>\<open>igraph_maximum_matching\<close>
  ignores the weights, as its documentation says (``Currently ignored''): the call does
  what the call with null weights does, and it does not return the unsupported-feature
  error.
\<close>

theorem maximum_matching_ignores_weights:
  "igraph_maximum_matching g out (Some w) = igraph_maximum_matching g out None \<and>
   igraph_maximum_matching g out (Some w) \<noteq> Some (Inl IGRAPH_UNIMPLEMENTED)"
  by (simp add: igraph_maximum_matching_def unweighted_general_result)

text \<open>
  Claim C2 says that \<^verbatim>\<open>igraph_maximum_matching\<close> succeeds on the triangle and reports a
  maximum matching of size 1.  The run on the triangle ends in its first phase, at the
  fill of the uninitialised \<^verbatim>\<open>visited_nodes\<close>, and reports nothing.
\<close>

theorem triangle_run_uninitialized:
  "igraph_maximum_matching triangle fresh None = Some (Inl UNINITIALIZED)"
  by code_simp

subsection \<open>The bipartite matchers\<close>

text \<open>
  Claim C3.  For every bipartite graph with a valid types vector (an entry for every
  vertex, no edge between two vertices of the same type) and null weights,
  \<^verbatim>\<open>igraph_maximum_bipartite_matching\<close> returns, and what it returns is a matching of
  maximum cardinality: the vector passes \<^verbatim>\<open>igraph_is_matching\<close> with the types, it has
  twice as many matched vertices as the size reported, and no vector that
  \<^verbatim>\<open>igraph_is_matching\<close> accepts for the graph has more.  The weight reported is the
  size.  On the path \<open>0-1-2-3\<close> with the parts \<open>{0, 2}\<close> and \<open>{1, 3}\<close> the size
  reported is 2, and on the complete bipartite graph \<open>K(2,3)\<close> it is 2.
\<close>

theorem bipartite_matching_maximum:
  "(igraph_ok g \<and> vcount g \<le> length types \<and> \<not> same_type_edge g types \<and>
    matching out \<noteq> None \<and> matching_size out \<noteq> None \<longrightarrow>
      (\<exists>r m k. igraph_maximum_bipartite_matching g types out None eps = Some (Inr r) \<and>
         matching r = Some m \<and> matching_size r = Some k \<and>
         matching_weight r = map_option (\<lambda>_. real_of_int k) (matching_weight out) \<and>
         igraph_is_matching g (Some types) m = Inr True \<and>
         int (matched_vertices m) = 2 * k \<and>
         (\<forall>m'. igraph_is_matching g None m' = Inr True \<longrightarrow>
            int (matched_vertices m') \<le> 2 * k))) \<and>
   igraph_maximum_bipartite_matching path4 [False, True, False, True] fresh None eps =
     Some (Inr \<lparr>matching_size = Some 2, matching_weight = Some 2,
                matching = Some [1, 0, 3, 2]\<rparr>) \<and>
   igraph_maximum_bipartite_matching k23 [False, False, True, True, True] fresh None eps =
     Some (Inr \<lparr>matching_size = Some 2, matching_weight = Some 2,
                matching = Some [2, 3, 0, 1, - 1]\<rparr>)"
proof (intro conjI impI)
  assume "igraph_ok g \<and> vcount g \<le> length types \<and> \<not> same_type_edge g types \<and>
    matching out \<noteq> None \<and> matching_size out \<noteq> None"
  then show "\<exists>r m k. igraph_maximum_bipartite_matching g types out None eps = Some (Inr r) \<and>
         matching r = Some m \<and> matching_size r = Some k \<and>
         matching_weight r = map_option (\<lambda>_. real_of_int k) (matching_weight out) \<and>
         igraph_is_matching g (Some types) m = Inr True \<and>
         int (matched_vertices m) = 2 * k \<and>
         (\<forall>m'. igraph_is_matching g None m' = Inr True \<longrightarrow>
            int (matched_vertices m') \<le> 2 * k)"
    using bipartite_maximum[of g types out eps] by blast
next
  show "igraph_maximum_bipartite_matching path4 [False, True, False, True] fresh None eps =
     Some (Inr \<lparr>matching_size = Some 2, matching_weight = Some 2,
                matching = Some [1, 0, 3, 2]\<rparr>)"
    by code_simp
next
  show "igraph_maximum_bipartite_matching k23 [False, False, True, True, True] fresh None eps =
     Some (Inr \<lparr>matching_size = Some 2, matching_weight = Some 2,
                matching = Some [2, 3, 0, 1, - 1]\<rparr>)"
    by code_simp
qed

theorem bipartite_matching_maximum_witness:
  "igraph_ok path4 \<and> vcount path4 \<le> length [False, True, False, True] \<and>
   \<not> same_type_edge path4 [False, True, False, True] \<and>
   matching fresh \<noteq> None \<and> matching_size fresh \<noteq> None \<and>
   igraph_maximum_bipartite_matching path4 [False, True, False, True] fresh None 0 =
     Some (Inr \<lparr>matching_size = Some 2, matching_weight = Some 2,
                matching = Some [1, 0, 3, 2]\<rparr>) \<and>
   igraph_is_matching path4 (Some [False, True, False, True]) [1, 0, 3, 2] = Inr True \<and>
   matched_vertices [1, 0, 3, 2] = 4 \<and>
   igraph_is_matching path4 None [- 1, 2, 1, - 1] = Inr True \<and>
   matched_vertices [- 1, 2, 1, - 1] \<le> 4"
proof -
  let ?t = "[False, True, False, True]"
  have h: "igraph_ok path4 \<and> vcount path4 \<le> length ?t \<and> \<not> same_type_edge path4 ?t \<and>
    matching fresh \<noteq> None \<and> matching_size fresh \<noteq> None"
    by (simp add: igraph_ok_def path4_def same_type_edge_def fresh_def)
  note t = bipartite_matching_maximum[of path4 ?t fresh 0]
  have run: "igraph_maximum_bipartite_matching path4 ?t fresh None 0 =
     Some (Inr \<lparr>matching_size = Some 2, matching_weight = Some 2,
                matching = Some [1, 0, 3, 2]\<rparr>)"
    using t by blast
  from t h obtain r m k where r:
    "igraph_maximum_bipartite_matching path4 ?t fresh None 0 = Some (Inr r)"
    "matching r = Some m" "matching_size r = Some k"
    "igraph_is_matching path4 (Some ?t) m = Inr True"
    "int (matched_vertices m) = 2 * k"
    "\<And>m'. igraph_is_matching path4 None m' = Inr True \<Longrightarrow> int (matched_vertices m') \<le> 2 * k"
    by blast
  have e: "m = [1, 0, 3, 2]" "k = 2" using r(1,2,3) run by auto
  have c: "igraph_is_matching path4 None [- 1, 2, 1, - 1] = Inr True" by code_simp
  have "int (matched_vertices [- 1, 2, 1, - 1]) \<le> 4" using r(6)[OF c] e by simp
  moreover have "int (matched_vertices [1, 0, 3, 2]) = 4" using r(5) e by simp
  ultimately show ?thesis using h run r(4) e c by simp
qed

text \<open>
  Claim C4 says that \<^verbatim>\<open>igraph_maximum_bipartite_matching\<close> fails with an invalid-input
  error whenever an edge joins two vertices of the same type.  In \<open>square_diagonal\<close> the
  edge \<open>2-3\<close> does, and both the unweighted and the weighted call return a matching.
\<close>

theorem invalid_bipartition_accepted:
  "same_type_edge square_diagonal [False, False, True, True] \<and>
   igraph_maximum_bipartite_matching square_diagonal [False, False, True, True] fresh None 0 =
     Some (Inr \<lparr>matching_size = Some 2, matching_weight = Some 2,
                matching = Some [2, 3, 0, 1]\<rparr>) \<and>
   igraph_maximum_bipartite_matching square_diagonal [False, False, True, True] fresh
       (Some [1, 1, 1]) 0 =
     Some (Inr \<lparr>matching_size = Some 2, matching_weight = Some 2,
                matching = Some [2, 3, 0, 1]\<rparr>)"
  by code_simp

text \<open>
  Claim C8 says that every matching vector returned by a successful call of
  \<^verbatim>\<open>igraph_maximum_bipartite_matching\<close> passes \<^verbatim>\<open>igraph_is_matching\<close>.  On \<open>crossed\<close>,
  whose edge \<open>2-6\<close> joins two vertices of the same type, the call succeeds and returns
  a vector in which 2 is matched to 6 and 6 to 5.
\<close>

theorem asymmetric_matching_returned:
  "igraph_maximum_bipartite_matching crossed
       [False, False, True, True, False, False, True, True] fresh None 0 =
     Some (Inr \<lparr>matching_size = Some 4, matching_weight = Some 4,
                matching = Some [3, - 1, 6, 0, 7, 6, 5, 4]\<rparr>) \<and>
   igraph_is_matching crossed (Some [False, False, True, True, False, False, True, True])
       [3, - 1, 6, 0, 7, 6, 5, 4] = Inr False \<and>
   igraph_is_matching crossed None [3, - 1, 6, 0, 7, 6, 5, 4] = Inr False"
  by code_simp

text \<open>
  Claim C9 says that the weight returned by the weighted matcher is the sum of the
  weights of the matched edges.  For two parallel edges of weight 5 the matching is the
  single pair \<open>0-1\<close> and the weight returned is 10: both tight edges between the pair
  are counted.  For two disjoint edges of weights 3 and 5 the weight is 8, as claimed.
\<close>

theorem parallel_edges_counted_twice:
  "igraph_maximum_bipartite_matching parallel_pair [False, True] fresh (Some [5, 5]) 0 =
     Some (Inr \<lparr>matching_size = Some 1, matching_weight = Some 10, matching = Some [1, 0]\<rparr>) \<and>
   igraph_maximum_bipartite_matching two_edges [False, True, False, True] fresh (Some [3, 5]) 0 =
     Some (Inr \<lparr>matching_size = Some 2, matching_weight = Some 8,
                matching = Some [1, 0, 3, 2]\<rparr>)"
  by code_simp

end
